theory Spec2Isabelle
  imports Main "HOL-Library.AList" "HOL-Library.Char_ord" "HOL-Library.List_Lexorder"
begin

section \<open>Mapping files of the sample registry\<close>

text \<open>
  A shallow embedding of \<^verbatim>\<open>pythonlib/sample_registry/mapping.py\<close>.

  Python text is modelled as \<^typ>\<open>string\<close>: a list of characters with code points
  below 256. A \<^verbatim>\<open>dict\<close> with text keys and text values is an association list in
  insertion order whose keys are distinct; looking a key up is \<^const>\<open>map_of\<close>, storing
  is \<^const>\<open>AList.update\<close> (an existing key keeps its place, a new key goes last, as in
  Python), deleting is \<^const>\<open>AList.delete\<close>. Two dicts are equal in Python when they
  hold the same pairs, whatever the order: equality of their \<^const>\<open>map_of\<close>.
  A generator is modelled by the list of everything it yields, or by the first error it
  raises.
\<close>

subsection \<open>Errors\<close>

text \<open>
  The source raises \<^verbatim>\<open>ValueError\<close> with different messages; the constructors below
  name the messages. \<open>HeaderMissing\<close> is the failure of \<^verbatim>\<open>next(f)\<close> on an exhausted
  line source (inside the generator it surfaces as a RuntimeError), \<open>FormatError\<close> the
  failed assertion on the header keys. The text carried by \<open>InvalidCharacterError\<close> and
  \<open>DuplicateError\<close> is the field the message names.
\<close>

datatype error =
    HeaderMissing
  | FormatError
  | ConflictError
  | InvalidCharacterError string
  | MissingFieldError
  | DuplicateError string

fun is_InvalidCharacterError :: "error \<Rightarrow> bool" where
  "is_InvalidCharacterError (InvalidCharacterError k) = True"
| "is_InvalidCharacterError e = False"

fun is_DuplicateError :: "error \<Rightarrow> bool" where
  "is_DuplicateError (DuplicateError k) = True"
| "is_DuplicateError e = False"

subsection \<open>Text primitives of Python\<close>

type_synonym pydict = "(string \<times> string) list"

definition TAB :: char where
  "TAB = CHR 0x09"

definition NL :: char where
  "NL = CHR 0x0A"

definition CR :: char where
  "CR = CHR 0x0D"

text \<open>The characters \<^verbatim>\<open>str.isspace\<close> accepts, among the code points below 256.\<close>

definition isspace :: "char \<Rightarrow> bool" where
  "isspace c = ((of_char c :: nat) \<in> set [9, 10, 11, 12, 13, 28, 29, 30, 31, 32, 133, 160])"

text \<open>\<^verbatim>\<open>s.strip()\<close>, \<^verbatim>\<open>s.lstrip(cs)\<close> and \<^verbatim>\<open>s.rstrip(cs)\<close>.\<close>

definition strip :: "string \<Rightarrow> string" where
  "strip s = rev (dropWhile isspace (rev (dropWhile isspace s)))"

definition lstrip :: "string \<Rightarrow> string \<Rightarrow> string" where
  "lstrip cs s = dropWhile (\<lambda>c. c \<in> set cs) s"

definition rstrip :: "string \<Rightarrow> string \<Rightarrow> string" where
  "rstrip cs s = rev (dropWhile (\<lambda>c. c \<in> set cs) (rev s))"

text \<open>\<^verbatim>\<open>s.startswith(p)\<close>.\<close>

definition startswith :: "string \<Rightarrow> string \<Rightarrow> bool" where
  "startswith p s = (take (length p) s = p)"

text \<open>
  \<^verbatim>\<open>s.split(c)\<close> for a one-character separator. The result is never empty
  (\<^verbatim>\<open>"".split(c) == [""]\<close>), so the first branch of the case is never taken.
\<close>

fun split :: "char \<Rightarrow> string \<Rightarrow> string list" where
  "split c [] = [[]]"
| "split c (x # xs) =
     (if x = c then [] # split c xs
      else case split c xs of [] \<Rightarrow> [[x]] | t # ts \<Rightarrow> (x # t) # ts)"

text \<open>\<^verbatim>\<open>sep.join(xs)\<close>.\<close>

fun join :: "string \<Rightarrow> string list \<Rightarrow> string" where
  "join sep [] = []"
| "join sep [x] = x"
| "join sep (x # y # ys) = x @ sep @ join sep (y # ys)"

text \<open>
  \<^verbatim>\<open>s.lower()\<close>: the upper-case letters below code point 256 are A to Z and the
  Latin-1 capitals 192 to 222 without the multiplication sign 215; each is 32 below its
  lower-case letter.
\<close>

definition lower_char :: "char \<Rightarrow> char" where
  "lower_char c =
     (let n = (of_char c :: nat)
      in if (65 \<le> n \<and> n \<le> 90) \<or> (192 \<le> n \<and> n \<le> 222 \<and> n \<noteq> 215)
         then char_of (n + 32) else c)"

definition lower :: "string \<Rightarrow> string" where
  "lower s = map lower_char s"

text \<open>
  \<^verbatim>\<open>xs.index(x)\<close>: the first position of \<open>x\<close>. Python raises ValueError when \<open>x\<close> is
  not in the list; the model returns the length of the list there. Every call in the
  source is made with an element of the list (\<open>cast_step_in_range\<close>,
  \<open>create_row_in_range\<close>), so that branch is never taken.
\<close>

fun index :: "'a list \<Rightarrow> 'a \<Rightarrow> nat" where
  "index [] x = 0"
| "index (y # ys) x = (if y = x then 0 else Suc (index ys x))"

subsection \<open>Constants of the module\<close>

definition NAs :: "string set" where
  "NAs = {'''', ''0000-00-00'', ''null'', ''Null'', ''NA'', ''na'', ''none'', ''None''}"

definition ascii_letters :: string where
  "ascii_letters = ''abcdefghijklmnopqrstuvwxyzABCDEFGHIJKLMNOPQRSTUVWXYZ''"

definition digits :: string where
  "digits = ''0123456789''"

definition ALLOWED_CHARS :: "(string \<times> char set) list" where
  "ALLOWED_CHARS =
     [(''sample_name'', set (''._-'' @ ascii_letters @ digits)),
      (''barcode_sequence'', set ''AGCT''),
      (''primer_sequence'', set ''AGCTRYMKSWHBVDN'')]"

definition SAMPLE_FIELDS :: "string list" where
  "SAMPLE_FIELDS = [''sample_name'', ''barcode_sequence'']"

definition QIIME_FIELDS :: "(string \<times> string) list" where
  "QIIME_FIELDS =
     [(''SampleID'', ''sample_name''),
      (''BarcodeSequence'', ''barcode_sequence'')]"

subsection \<open>Run and sample descriptors\<close>

text \<open>
  The objects the registry hands to the QIIME writer; the source reads exactly these
  attributes of them.
\<close>

record run =
  comment :: string
  date :: string
  region :: string
  platform :: string
  formatted_accession :: string

record sample =
  name :: string
  barcode :: string
  primer :: string
  accession :: string
  formatted_accession :: string

subsection \<open>The EAV caster\<close>

text \<open>
  One turn of the loop of \<^verbatim>\<open>_cast\<close> over a triple \<^verbatim>\<open>(sample_acc, field, val)\<close>, on
  the state \<open>(flds, rows)\<close> (the source's \<^verbatim>\<open>fields\<close> and \<^verbatim>\<open>rows\<close>). The rows are separate lists (built by a comprehension),
  so writing one cell changes one row.
\<close>

definition cast_step ::
  "string list \<Rightarrow> string \<times> string \<times> string \<Rightarrow> string list \<times> string list list
     \<Rightarrow> string list \<times> string list list" where
  "cast_step accessions t st =
     (case t of (sample_acc, field, val) \<Rightarrow>
      case st of (flds, rows) \<Rightarrow>
        if sample_acc \<notin> set accessions then (flds, rows)
        else
          let sample_idx = index accessions sample_acc
          in if lower field \<in> set [''description''] then (flds, rows)
             else
               let (flds', rows') =
                     (if field \<notin> set flds
                      then (flds @ [field], map (\<lambda>r. r @ [''NA'']) rows)
                      else (flds, rows));
                   field_idx = index flds' field
               in (flds', rows'[sample_idx := (rows' ! sample_idx)[field_idx := val]]))"

definition cast ::
  "sample list \<Rightarrow> (string \<times> string \<times> string) list \<Rightarrow> string list \<times> string list list" where
  "cast samples annotations =
     (let accessions = map accession samples;
          rows = map (\<lambda>a. []) accessions
      in fold (cast_step accessions) annotations ([], rows))"

subsection \<open>The QIIME writer\<close>

text \<open>
  \<^verbatim>\<open>create_qiime\<close> writes into a buffer and returns its text. \<open>qiime_header\<close> is the
  list the source calls \<^verbatim>\<open>fields\<close>, \<open>qiime_vals\<close> the list it calls \<^verbatim>\<open>vals\<close>.
\<close>

definition qiime_header :: "string list \<Rightarrow> string list" where
  "qiime_header annotation_fields =
     (let qiime_fields = map fst QIIME_FIELDS
      in qiime_fields @ annotation_fields @ [''Description''])"

definition qiime_vals :: "sample \<Rightarrow> string list \<Rightarrow> string list" where
  "qiime_vals s annotation_row =
     (let sample_row = [name s, barcode s, primer s]
      in sample_row @ annotation_row @ [sample.formatted_accession s])"

definition create_qiime ::
  "run \<Rightarrow> sample list \<Rightarrow> (string \<times> string \<times> string) list \<Rightarrow> string" where
  "create_qiime r samples annotations =
     (case cast samples annotations of (annotation_fields, annotation_rows) \<Rightarrow>
        let buff = [];
            buff = buff @ ''#'';
            buff = buff @ join [TAB] (qiime_header annotation_fields);
            buff = buff @ [NL];
            buff = buff @ ''#'' @ comment r @ [NL];
            buff = buff @ ''#Sequencing date: '' @ date r @ [NL];
            buff = buff @ ''#Region: '' @ region r @ [NL];
            buff = buff @ ''#Platform: '' @ platform r @ [NL];
            buff = buff @ ''#Bushman lab run accession: '' @ run.formatted_accession r @ [NL]
        in fold (\<lambda>(s, annotation_row) buff. buff @ join [TAB] (qiime_vals s annotation_row) @ [NL])
             (zip samples annotation_rows) buff)"

subsection \<open>The registry writer\<close>

text \<open>
  \<^verbatim>\<open>create(f, samples)\<close> appends to the sink \<open>f\<close>; the model takes the text already in
  the sink and returns the text after the call. \<^verbatim>\<open>sorted(s.keys())\<close> sorts text by code
  point, lexicographically, which is the order of \<^typ>\<open>string\<close> here.
\<close>

definition add_columns :: "pydict \<Rightarrow> string list \<Rightarrow> string list" where
  "add_columns s column_names =
     fold (\<lambda>key cols. if key \<notin> set cols then cols @ [key] else cols)
       (sort (map fst s)) column_names"

definition create_row :: "string list \<Rightarrow> pydict \<Rightarrow> string list" where
  "create_row column_names s =
     fold (\<lambda>(key, val) row. row[index column_names key := val]) s
       (replicate (length column_names) ''NA'')"

definition create_columns :: "pydict list \<Rightarrow> string list" where
  "create_columns samples = fold add_columns samples [''sample_name'', ''barcode_sequence'']"

definition create :: "string \<Rightarrow> pydict list \<Rightarrow> string" where
  "create f samples =
     (let column_names = create_columns samples;
          line = join [TAB] column_names;
          f = f @ line;
          f = f @ [NL]
      in fold (\<lambda>s f. f @ join [TAB] (create_row column_names s) @ [NL]) samples f)"

subsection \<open>The record parser\<close>

text \<open>
  The parser iterates over the lines of a text source. \<open>lines_of\<close> is the iteration
  of Python over a text stream that does not translate line ends (\<^verbatim>\<open>io.StringIO\<close>):
  every line ends after its newline character, which it keeps; text after the last
  newline is a last line without one.
\<close>

fun lines_of :: "string \<Rightarrow> string list" where
  "lines_of [] = []"
| "lines_of (x # xs) =
     (if x = NL then [x] # lines_of xs
      else case lines_of xs of [] \<Rightarrow> [[x]] | l # ls \<Rightarrow> (x # l) # ls)"

definition tokenize :: "string \<Rightarrow> string list" where
  "tokenize line =
     (let line = rstrip [NL, CR] line;
          toks = split TAB line
      in map strip toks)"

text \<open>\<^verbatim>\<open>dict(pairs)\<close>: the pairs are stored in order, a later pair replaces an earlier one with its key.\<close>

definition dict :: "(string \<times> string) list \<Rightarrow> pydict" where
  "dict ps = fold (\<lambda>(k, v) d. AList.update k v d) ps []"

text \<open>The record the parser yields for one data line.\<close>

definition parse_record :: "string list \<Rightarrow> string list \<Rightarrow> pydict" where
  "parse_record keys vals = dict (filter (\<lambda>(k, v). v \<notin> NAs) (zip keys vals))"

definition parse :: "string list \<Rightarrow> error + pydict list" where
  "parse f =
     (case f of
        [] \<Rightarrow> Inl HeaderMissing
      | first # rest \<Rightarrow>
          let header = lstrip ''#'' first;
              keys = tokenize header
          in if \<not> list_all (\<lambda>k. k \<noteq> []) keys then Inl FormatError
             else Inr (map (\<lambda>line. parse_record keys (tokenize line))
                        (filter (\<lambda>line. \<not> startswith ''#'' line \<and> strip line \<noteq> []) rest)))"

subsection \<open>The format converter\<close>

text \<open>
  One turn of the loop over \<^verbatim>\<open>QIIME_FIELDS\<close>. A value of a record is text, never
  \<^verbatim>\<open>None\<close>, so \<^verbatim>\<open>r.pop(qiime_field, None)\<close> is \<^verbatim>\<open>None\<close> exactly when the key is absent.
\<close>

definition convert_field :: "string \<times> string \<Rightarrow> pydict \<Rightarrow> error + pydict" where
  "convert_field p r =
     (case p of (qiime_field, core_field) \<Rightarrow>
        if core_field \<in> set (map fst r) then Inl ConflictError
        else case map_of r qiime_field of
               None \<Rightarrow> Inr r
             | Some qiime_val \<Rightarrow> Inr (AList.update core_field qiime_val (AList.delete qiime_field r)))"

fun convert_fields :: "(string \<times> string) list \<Rightarrow> pydict \<Rightarrow> error + pydict" where
  "convert_fields [] r = Inr r"
| "convert_fields (p # ps) r =
     (case convert_field p r of Inl e \<Rightarrow> Inl e | Inr r' \<Rightarrow> convert_fields ps r')"

definition convert_record :: "pydict \<Rightarrow> error + pydict" where
  "convert_record r =
     (let r = (if ''Description'' \<in> set (map fst r) then AList.delete ''Description'' r else r)
      in convert_fields QIIME_FIELDS r)"

fun convert_from_qiime :: "pydict list \<Rightarrow> error + pydict list" where
  "convert_from_qiime [] = Inr []"
| "convert_from_qiime (r # recs) =
     (case convert_record r of
        Inl e \<Rightarrow> Inl e
      | Inr r' \<Rightarrow> (case convert_from_qiime recs of Inl e \<Rightarrow> Inl e | Inr rs \<Rightarrow> Inr (r' # rs)))"

subsection \<open>The validator\<close>

text \<open>
  The loop over \<^verbatim>\<open>ALLOWED_CHARS.items()\<close>, in the order the dict was written, and the
  body of the loop over the records on the state \<open>(sample_names, barcodes)\<close>.
\<close>

fun check_chars :: "(string \<times> char set) list \<Rightarrow> pydict \<Rightarrow> error + unit" where
  "check_chars [] r = Inr ()"
| "check_chars ((key, char_set) # rest) r =
     (case map_of r key of
        None \<Rightarrow> check_chars rest r
      | Some val \<Rightarrow>
          if \<not> list_all (\<lambda>c. c \<in> char_set) val then Inl (InvalidCharacterError key)
          else check_chars rest r)"

definition validate_record ::
  "string set \<times> string set \<Rightarrow> pydict \<Rightarrow> error + string set \<times> string set" where
  "validate_record st r =
     (case st of (sample_names, barcodes) \<Rightarrow>
      case check_chars ALLOWED_CHARS r of
        Inl e \<Rightarrow> Inl e
      | Inr u \<Rightarrow>
         (case map_of r ''sample_name'' of
            None \<Rightarrow> Inl MissingFieldError
          | Some name' \<Rightarrow>
              if name' \<in> sample_names then Inl (DuplicateError ''sample_name'')
              else
                let sample_names = insert name' sample_names;
                    barcode' = (case map_of r ''barcode_sequence'' of None \<Rightarrow> [] | Some b \<Rightarrow> b)
                in if barcode' \<in> barcodes then Inl (DuplicateError ''barcode'')
                   else Inr (sample_names, insert barcode' barcodes)))"

fun validate_loop ::
  "string set \<times> string set \<Rightarrow> pydict list \<Rightarrow> error + string set \<times> string set" where
  "validate_loop st [] = Inr st"
| "validate_loop st (r # recs) =
     (case validate_record st r of Inl e \<Rightarrow> Inl e | Inr st' \<Rightarrow> validate_loop st' recs)"

definition validate :: "pydict list \<Rightarrow> error + unit" where
  "validate recs = (case validate_loop ({}, {}) recs of Inl e \<Rightarrow> Inl e | Inr st \<Rightarrow> Inr ())"

section \<open>Invariants and examples\<close>

text \<open>
  The state of the caster between two triples: one row per sample, every row as long as
  the list of fields, no field twice, no field that reads \<open>description\<close> in lower case.
\<close>

definition cast_inv :: "nat \<Rightarrow> string list \<times> string list list \<Rightarrow> bool" where
  "cast_inv n st =
     (case st of (flds, rows) \<Rightarrow>
        length rows = n \<and> (\<forall>r \<in> set rows. length r = length flds) \<and> distinct flds
        \<and> (\<forall>f \<in> set flds. lower f \<noteq> ''description''))"

text \<open>
  The row of a sample whose accession already stands earlier in the sample list holds
  nothing but \<open>NA\<close>.
\<close>

definition dup_rows_na :: "string list \<Rightarrow> string list list \<Rightarrow> bool" where
  "dup_rows_na accessions rows =
     (\<forall>j < length accessions. accessions ! j \<in> set (take j accessions) \<longrightarrow>
        set (rows ! j) \<subseteq> {''NA''})"

text \<open>
  Field \<open>f\<close> is a column, and the cell of that column in the row that the accession
  \<open>a\<close> selects holds \<open>v\<close>.
\<close>

definition cell_holds ::
  "string list \<Rightarrow> string \<Rightarrow> string \<Rightarrow> string \<Rightarrow> string list \<times> string list list \<Rightarrow> bool" where
  "cell_holds accessions a f v st =
     (f \<in> set (fst st) \<and> snd st ! index accessions a ! index (fst st) f = v)"

text \<open>Three samples, the third repeating the accession of the first, and five triples.\<close>

definition ex_samples :: "sample list" where
  "ex_samples =
     [\<lparr>name = ''s1'', barcode = ''AGCT'', primer = ''AGG'', accession = ''A'',
       formatted_accession = ''PCMP000001''\<rparr>,
      \<lparr>name = ''s2'', barcode = ''TTTT'', primer = ''AGG'', accession = ''B'',
       formatted_accession = ''PCMP000002''\<rparr>,
      \<lparr>name = ''s3'', barcode = ''GGGG'', primer = ''AGG'', accession = ''A'',
       formatted_accession = ''PCMP000003''\<rparr>]"

definition ex_annotations :: "(string \<times> string \<times> string) list" where
  "ex_annotations =
     [(''A'', ''x'', ''1''), (''Z'', ''y'', ''9''), (''A'', ''DESCRIPTION'', ''junk''),
      (''A'', ''x'', ''2''), (''B'', ''host'', ''mouse'')]"

subsection \<open>The format converter in the words of the specification\<close>

text \<open>
  The conversion of one record, written on the mapping from keys to values: for a pair
  of the rename table, a conflict when the core name is already a key, otherwise the value
  of the QIIME name, when there is one, moves to the core name. \<open>spec_convert\<close> removes
  the \<open>Description\<close> key and goes through the two pairs of the table.
\<close>

definition spec_convert_pair ::
  "string \<times> string \<Rightarrow> (string \<rightharpoonup> string) \<Rightarrow> error + (string \<rightharpoonup> string)" where
  "spec_convert_pair p m =
     (case p of (qiime_name, core_name) \<Rightarrow>
        if core_name \<in> dom m then Inl ConflictError
        else case m qiime_name of
               None \<Rightarrow> Inr m
             | Some v \<Rightarrow> Inr ((m(qiime_name := None))(core_name \<mapsto> v)))"

definition spec_convert :: "(string \<rightharpoonup> string) \<Rightarrow> error + (string \<rightharpoonup> string)" where
  "spec_convert m =
     (case spec_convert_pair (''SampleID'', ''sample_name'') (m(''Description'' := None)) of
        Inl e \<Rightarrow> Inl e
      | Inr m' \<Rightarrow> spec_convert_pair (''BarcodeSequence'', ''barcode_sequence'') m')"

subsection \<open>Predicates on the validator\<close>

text \<open>
  Some constrained field present in the record has a value with a character outside
  the allowed set of the field.
\<close>

definition has_illegal_chars :: "pydict \<Rightarrow> bool" where
  "has_illegal_chars r =
     (\<exists>(key, char_set) \<in> set ALLOWED_CHARS.
        case map_of r key of None \<Rightarrow> False | Some val \<Rightarrow> \<exists>c \<in> set val. c \<notin> char_set)"

definition raises_invalid_character :: "error + 'a \<Rightarrow> bool" where
  "raises_invalid_character res = (case res of Inl e \<Rightarrow> is_InvalidCharacterError e | Inr x \<Rightarrow> False)"

text \<open>
  The sample names of the records that have one, the barcode value of a record (the
  empty text when the field is absent), and what it means that one of them repeats.
\<close>

definition sample_names_of :: "pydict list \<Rightarrow> string list" where
  "sample_names_of recs = List.map_filter (\<lambda>r. map_of r ''sample_name'') recs"

definition barcode_of :: "pydict \<Rightarrow> string" where
  "barcode_of r = (case map_of r ''barcode_sequence'' of None \<Rightarrow> [] | Some b \<Rightarrow> b)"

definition sample_name_repeats :: "pydict list \<Rightarrow> bool" where
  "sample_name_repeats recs = (\<not> distinct (sample_names_of recs))"

definition barcode_repeats :: "pydict list \<Rightarrow> bool" where
  "barcode_repeats recs = (\<not> distinct (map barcode_of recs))"

definition raises_duplicate :: "error + 'a \<Rightarrow> bool" where
  "raises_duplicate res = (case res of Inl e \<Rightarrow> is_DuplicateError e | Inr x \<Rightarrow> False)"

text \<open>A record that passes the character check and has a sample name.\<close>

definition record_ok :: "pydict \<Rightarrow> bool" where
  "record_ok r = (\<not> has_illegal_chars r \<and> map_of r ''sample_name'' \<noteq> None)"

text \<open>
  A name or a barcode value repeats among the records, or is one of those already seen
  (\<open>N\<close> the names, \<open>B\<close> the barcode values).
\<close>

definition dup_in :: "string set \<Rightarrow> string set \<Rightarrow> pydict list \<Rightarrow> bool" where
  "dup_in N B recs =
     (sample_name_repeats recs \<or> set (sample_names_of recs) \<inter> N \<noteq> {}
      \<or> barcode_repeats recs \<or> set (map barcode_of recs) \<inter> B \<noteq> {})"

text \<open>Two records with the same sample name; the second has an illegal barcode.\<close>

definition dup_cex :: "pydict list" where
  "dup_cex =
     [[(''sample_name'', ''S1''), (''barcode_sequence'', ''A'')],
      [(''sample_name'', ''S1''), (''barcode_sequence'', ''N'')]]"

text \<open>A run descriptor, and a record as the parser reads it from a QIIME mapping file.\<close>

definition ex_run :: run where
  "ex_run = \<lparr>comment = ''gut samples'', date = ''2020-01-31'', region = ''V1V2'',
             platform = ''MiSeq'', formatted_accession = ''PCMP000012''\<rparr>"

definition ex_qiime_record :: pydict where
  "ex_qiime_record =
     [(''SampleID'', ''S1''), (''Description'', ''junk''), (''plate'', ''P1''),
      (''BarcodeSequence'', ''AGCT'')]"

subsection \<open>Predicates on the registry writer and the parser\<close>

text \<open>
  The cell the writer puts into the column \<open>k\<close> of the row of record \<open>r\<close>, and the
  record without the pairs whose value is a missing-value token.
\<close>

definition cell :: "pydict \<Rightarrow> string \<Rightarrow> string" where
  "cell r k = (case map_of r k of None \<Rightarrow> ''NA'' | Some v \<Rightarrow> v)"

definition strip_missing :: "pydict \<Rightarrow> pydict" where
  "strip_missing r = filter (\<lambda>(k, v). v \<notin> NAs) r"

text \<open>
  A key that survives writing and parsing: not empty, without tab and newline, without
  surrounding whitespace. A value: without tab and newline, without surrounding
  whitespace.
\<close>

definition clean_key :: "string \<Rightarrow> bool" where
  "clean_key k = (k \<noteq> [] \<and> TAB \<notin> set k \<and> NL \<notin> set k \<and> strip k = k)"

definition clean_val :: "string \<Rightarrow> bool" where
  "clean_val v = (TAB \<notin> set v \<and> NL \<notin> set v \<and> strip v = v)"

text \<open>
  The rows that the parser does not read as data: the row of a record whose sample name
  starts with the comment marker is a comment line, and the row of a record that gives
  the empty text to every column is blank after trimming.
\<close>

definition comment_row :: "pydict \<Rightarrow> bool" where
  "comment_row r = (case map_of r ''sample_name'' of None \<Rightarrow> False | Some v \<Rightarrow> startswith ''#'' v)"

definition blank_row :: "string list \<Rightarrow> pydict \<Rightarrow> bool" where
  "blank_row cols r = list_all (\<lambda>k. map_of r k = Some []) cols"

text \<open>The line the writer emits for a record.\<close>

definition row_line :: "string list \<Rightarrow> pydict \<Rightarrow> string" where
  "row_line cols r = join [TAB] (create_row cols r) @ [NL]"

text \<open>Two records to write and parse again, and what the parser returns for them.\<close>

definition rt_recs :: "pydict list" where
  "rt_recs =
     [[(''sample_name'', ''S1''), (''barcode_sequence'', ''AGCT'')],
      [(''sample_name'', ''S2''), (''barcode_sequence'', ''TTTT''), (''plate'', ''P1''),
       (''host'', ''None'')]]"

definition rt_parsed :: "pydict list" where
  "rt_parsed =
     [[(''sample_name'', ''S1''), (''barcode_sequence'', ''AGCT'')],
      [(''sample_name'', ''S2''), (''barcode_sequence'', ''TTTT''), (''plate'', ''P1'')]]"

text \<open>A header with three keys and a data line with two values.\<close>

definition short_header :: string where
  "short_header = ''#a'' @ [TAB] @ ''b'' @ [TAB] @ ''c'' @ [NL]"

definition short_line :: string where
  "short_line = ''1'' @ [TAB] @ ''2'' @ [NL]"

section \<open>Properties\<close>

subsection \<open>Positions in a list\<close>

lemma index_less: "x \<in> set xs \<Longrightarrow> index xs x < length xs"
  by (induction xs) auto

lemma index_le: "index xs x \<le> length xs"
  by (induction xs) auto

lemma index_notin: "x \<notin> set xs \<Longrightarrow> index xs x = length xs"
  by (induction xs) auto

lemma nth_index: "x \<in> set xs \<Longrightarrow> xs ! index xs x = x"
  by (induction xs) auto

lemma index_append: "x \<in> set xs \<Longrightarrow> index (xs @ ys) x = index xs x"
  by (induction xs) auto

lemma index_append_new: "x \<notin> set xs \<Longrightarrow> index (xs @ [x]) x = length xs"
  by (induction xs) auto

lemma index_first: "x \<notin> set (take (index xs x) xs)"
  by (induction xs) auto

lemma index_eq_iff: "x \<in> set xs \<Longrightarrow> index xs x = index xs y \<longleftrightarrow> x = y"
  by (induction xs) auto

lemma index_nth_distinct: "distinct xs \<Longrightarrow> i < length xs \<Longrightarrow> index xs (xs ! i) = i"
  by (induction xs arbitrary: i) (auto simp: nth_Cons split: nat.splits)

subsection \<open>The EAV caster\<close>

lemma cast_step_inv:
  assumes "cast_inv (length accessions) st"
  shows "cast_inv (length accessions) (cast_step accessions t st)"
proof -
  obtain a f v where t: "t = (a, f, v)" by (cases t)
  obtain flds rows where st: "st = (flds, rows)" by (cases st)
  from assms st have len: "length rows = length accessions"
    and rl: "\<forall>r \<in> set rows. length r = length flds"
    and d: "distinct flds" and nd: "\<forall>f \<in> set flds. lower f \<noteq> ''description''"
    by (auto simp: cast_inv_def)
  show ?thesis
    using len rl d nd unfolding t st cast_step_def cast_inv_def
    by (auto simp: Let_def index_less dest!: set_update_subset_insert[THEN subsetD])
qed

lemma cast_fold_inv:
  "cast_inv (length accessions) st \<Longrightarrow>
   cast_inv (length accessions) (fold (cast_step accessions) anns st)"
  by (induction anns arbitrary: st) (auto simp: cast_step_inv)

lemma cast_step_absent: "fst t \<notin> set accessions \<Longrightarrow> cast_step accessions t st = st"
  by (cases t; cases st) (simp add: cast_step_def)

lemma cast_fold_filter:
  "fold (cast_step accessions) (filter (\<lambda>t. fst t \<in> set accessions) anns) st
     = fold (cast_step accessions) anns st"
  by (induction anns arbitrary: st) (simp_all add: cast_step_absent)

lemma cast_step_present:
  assumes "a \<in> set accessions" and "lower f \<noteq> ''description''"
  shows "cast_step accessions (a, f, v) (flds, rows) =
     (let flds' = (if f \<notin> set flds then flds @ [f] else flds);
          rows' = (if f \<notin> set flds then map (\<lambda>r. r @ [''NA'']) rows else rows);
          i = index accessions a
      in (flds', rows'[i := (rows' ! i)[index flds' f := v]]))"
  using assms by (simp add: cast_step_def Let_def)

lemma cast_step_skip:
  "a \<notin> set accessions \<or> lower f = ''description'' \<Longrightarrow>
   cast_step accessions (a, f, v) st = st"
  by (cases st) (auto simp: cast_step_def)

lemma cells_update:
  fixes rs :: "'a list list"
  assumes "\<forall>r \<in> set rs. set r \<subseteq> S" and "v \<in> S"
  shows "\<forall>r \<in> set (rs[i := (rs ! i)[j := v]]). set r \<subseteq> S"
proof (cases "i < length rs")
  case False
  then have "rs[i := (rs ! i)[j := v]] = rs" by (simp add: list_update_beyond not_less)
  then show ?thesis using assms(1) by simp
next
  case True
  show ?thesis
  proof
    fix r assume "r \<in> set (rs[i := (rs ! i)[j := v]])"
    then have "r = (rs ! i)[j := v] \<or> r \<in> set rs"
      using set_update_subset_insert[of rs i] by auto
    moreover have "set ((rs ! i)[j := v]) \<subseteq> insert v (set (rs ! i))"
      by (rule set_update_subset_insert)
    moreover have "set (rs ! i) \<subseteq> S" using assms(1) True by simp
    ultimately show "set r \<subseteq> S" using assms by auto
  qed
qed

lemma cast_step_cells:
  assumes "\<forall>r \<in> set (snd st). set r \<subseteq> S" and "''NA'' \<in> S"
    and "fst t \<in> set accessions \<Longrightarrow> snd (snd t) \<in> S"
  shows "\<forall>r \<in> set (snd (cast_step accessions t st)). set r \<subseteq> S"
proof -
  obtain a f v where t: "t = (a, f, v)" by (cases t)
  obtain flds rows where st: "st = (flds, rows)" by (cases st)
  show ?thesis
  proof (cases "a \<in> set accessions \<and> lower f \<noteq> ''description''")
    case False
    then show ?thesis using assms(1) cast_step_skip[of a accessions f v st] by (auto simp: t)
  next
    case True
    then have vS: "v \<in> S" using assms(3) by (simp add: t)
    define rows' where "rows' = (if f \<notin> set flds then map (\<lambda>r. r @ [''NA'']) rows else rows)"
    have "\<forall>r \<in> set rows'. set r \<subseteq> S"
      using assms(1,2) by (auto simp: st rows'_def)
    from cells_update[OF this vS] show ?thesis
      using True by (simp add: t st cast_step_present Let_def rows'_def)
  qed
qed

lemma cast_fold_cells:
  assumes "\<forall>r \<in> set (snd st). set r \<subseteq> S" and "''NA'' \<in> S"
    and "\<forall>t \<in> set anns. fst t \<in> set accessions \<longrightarrow> snd (snd t) \<in> S"
  shows "\<forall>r \<in> set (snd (fold (cast_step accessions) anns st)). set r \<subseteq> S"
  using assms
proof (induction anns arbitrary: st)
  case Nil
  then show ?case by simp
next
  case (Cons t anns)
  have "\<forall>r \<in> set (snd (cast_step accessions t st)). set r \<subseteq> S"
    by (rule cast_step_cells) (use Cons.prems in auto)
  then show ?case using Cons by simp
qed

lemma cast_inv_init: "cast_inv (length accessions) ([], map (\<lambda>a. []) accessions)"
  by (simp add: cast_inv_def)

lemma cast_result_inv:
  "cast_inv (length samples) (cast samples annotations)"
  using cast_fold_inv[OF cast_inv_init, of "map accession samples" annotations]
  by (simp add: cast_def Let_def)


lemma cast_step_dup:
  assumes "dup_rows_na accessions (snd st)" and "length (snd st) = length accessions"
  shows "dup_rows_na accessions (snd (cast_step accessions t st))"
proof -
  obtain a f v where t: "t = (a, f, v)" by (cases t)
  obtain flds rows where st: "st = (flds, rows)" by (cases st)
  show ?thesis
  proof (cases "a \<in> set accessions \<and> lower f \<noteq> ''description''")
    case False
    then show ?thesis using assms(1) cast_step_skip[of a accessions f v st] by (auto simp: t)
  next
    case True
    define rows' where "rows' = (if f \<notin> set flds then map (\<lambda>r. r @ [''NA'']) rows else rows)"
    define i where "i = index accessions a"
    have len: "length rows' = length accessions" using assms(2) by (simp add: st rows'_def)
    have d': "dup_rows_na accessions rows'"
      using assms by (auto simp: st rows'_def dup_rows_na_def)
    have "dup_rows_na accessions (rows'[i := (rows' ! i)[j := v]])" for j
      unfolding dup_rows_na_def
    proof (intro allI impI)
      fix k assume k: "k < length accessions" "accessions ! k \<in> set (take k accessions)"
      have "k \<noteq> i"
      proof
        assume "k = i"
        then have "accessions ! k = a" using True by (simp add: i_def nth_index)
        with k(2) \<open>k = i\<close> index_first[of a accessions] show False by (simp add: i_def)
      qed
      then show "set (rows'[i := (rows' ! i)[j := v]] ! k) \<subseteq> {''NA''}"
        using d' k by (simp add: dup_rows_na_def)
    qed
    then show ?thesis
      using True by (simp add: t st cast_step_present Let_def rows'_def i_def)
  qed
qed

lemma cast_step_length:
  "length (snd (cast_step accessions t st)) = length (snd st)"
  by (cases t; cases st) (simp add: cast_step_def Let_def)

lemma cast_fold_dup:
  "dup_rows_na accessions (snd st) \<Longrightarrow> length (snd st) = length accessions \<Longrightarrow>
   dup_rows_na accessions (snd (fold (cast_step accessions) anns st))"
  by (induction anns arbitrary: st) (simp_all add: cast_step_dup cast_step_length)


lemma cast_step_writes:
  assumes "cast_inv (length accessions) st" and "a \<in> set accessions"
    and "lower f \<noteq> ''description''"
  shows "cell_holds accessions a f v (cast_step accessions (a, f, v) st)"
proof -
  obtain flds rows where st: "st = (flds, rows)" by (cases st)
  define flds' where "flds' = (if f \<notin> set flds then flds @ [f] else flds)"
  define rows' where "rows' = (if f \<notin> set flds then map (\<lambda>r. r @ [''NA'']) rows else rows)"
  define i where "i = index accessions a"
  have i: "i < length rows'" using assms(1,2) by (simp add: st cast_inv_def rows'_def i_def index_less)
  have fin: "f \<in> set flds'" by (simp add: flds'_def)
  have "length (rows' ! i) = length flds'"
    using assms(1) i by (auto simp: st cast_inv_def rows'_def flds'_def)
  then have j: "index flds' f < length (rows' ! i)" using fin by (simp add: index_less)
  have "cast_step accessions (a, f, v) st = (flds', rows'[i := (rows' ! i)[index flds' f := v]])"
    using assms(2,3) by (simp add: st cast_step_present Let_def flds'_def rows'_def i_def)
  then show ?thesis using i j fin by (simp add: cell_holds_def i_def[symmetric])
qed

lemma cast_step_keeps:
  assumes "cast_inv (length accessions) st" and "a \<in> set accessions"
    and "cell_holds accessions a f v st"
    and "\<not> (fst t = a \<and> fst (snd t) = f)"
  shows "cell_holds accessions a f v (cast_step accessions t st)"
proof -
  obtain a' f' v' where t: "t = (a', f', v')" by (cases t)
  obtain flds rows where st: "st = (flds, rows)" by (cases st)
  show ?thesis
  proof (cases "a' \<in> set accessions \<and> lower f' \<noteq> ''description''")
    case False
    then show ?thesis using assms(3) cast_step_skip[of a' accessions f' v' st] by (auto simp: t)
  next
    case True
    define flds' where "flds' = (if f' \<notin> set flds then flds @ [f'] else flds)"
    define rows' where "rows' = (if f' \<notin> set flds then map (\<lambda>r. r @ [''NA'']) rows else rows)"
    define i where "i = index accessions a"
    define i' where "i' = index accessions a'"
    have fin: "f \<in> set flds" and cell: "rows ! i ! index flds f = v"
      using assms(3) by (simp_all add: cell_holds_def st i_def)
    have i: "i < length rows" using assms(1,2) by (simp add: st cast_inv_def i_def index_less)
    have jl: "index flds f < length (rows ! i)"
      using assms(1) i fin by (simp add: st cast_inv_def index_less)
    have fin': "f \<in> set flds'" using fin by (simp add: flds'_def)
    have idx: "index flds' f = index flds f" using fin by (simp add: flds'_def index_append)
    have cell': "rows' ! i ! index flds f = v"
      using cell i jl by (simp add: rows'_def nth_append)
    have step: "cast_step accessions t st = (flds', rows'[i' := (rows' ! i')[index flds' f' := v']])"
      using True by (simp add: t st cast_step_present Let_def flds'_def rows'_def i'_def)
    have "rows'[i' := (rows' ! i')[index flds' f' := v']] ! i ! index flds f = v"
    proof (cases "i' = i")
      case False
      then show ?thesis using cell' by simp
    next
      case True
      then have "a' = a" using index_eq_iff[OF assms(2), of a'] by (simp add: i_def i'_def)
      then have "f' \<noteq> f" using assms(4) by (simp add: t)
      then have "index flds' f' \<noteq> index flds' f"
        using fin' index_eq_iff[of f flds' f'] by auto
      then show ?thesis using cell' True i by (simp add: idx rows'_def)
    qed
    then show ?thesis using fin' by (simp add: step cell_holds_def idx i_def)
  qed
qed

lemma cast_fold_keeps:
  assumes "cast_inv (length accessions) st" and "a \<in> set accessions"
    and "cell_holds accessions a f v st"
    and "\<forall>t \<in> set ys. \<not> (fst t = a \<and> fst (snd t) = f)"
  shows "cell_holds accessions a f v (fold (cast_step accessions) ys st)"
  using assms
proof (induction ys arbitrary: st)
  case Nil
  then show ?case by simp
next
  case (Cons t ys)
  have "cell_holds accessions a f v (cast_step accessions t st)"
    by (rule cast_step_keeps) (use Cons.prems in auto)
  moreover have "cast_inv (length accessions) (cast_step accessions t st)"
    by (rule cast_step_inv) (use Cons.prems in auto)
  ultimately show ?case using Cons by simp
qed

lemma cast_last_write:
  assumes "a \<in> set (map accession samples)" and "lower f \<noteq> ''description''"
    and "\<forall>t \<in> set ys. \<not> (fst t = a \<and> fst (snd t) = f)"
  shows "cell_holds (map accession samples) a f v (cast samples (xs @ (a, f, v) # ys))"
proof -
  let ?accs = "map accession samples"
  let ?st = "fold (cast_step ?accs) xs ([], map (\<lambda>a. []) ?accs)"
  have inv: "cast_inv (length ?accs) ?st"
    by (rule cast_fold_inv[OF cast_inv_init])
  have "cell_holds ?accs a f v (cast_step ?accs (a, f, v) ?st)"
    by (rule cast_step_writes[OF inv assms(1,2)])
  moreover have "cast_inv (length ?accs) (cast_step ?accs (a, f, v) ?st)"
    by (rule cast_step_inv[OF inv])
  ultimately have "cell_holds ?accs a f v (fold (cast_step ?accs) ys (cast_step ?accs (a, f, v) ?st))"
    using assms(1,3) by (intro cast_fold_keeps) auto
  then show ?thesis by (simp add: cast_def Let_def)
qed

text \<open>
  The two positions that a turn of the loop writes at are inside the table, so the
  writes of the source never raise.
\<close>

lemma cast_step_in_range:
  assumes "cast_inv (length accessions) (flds, rows)" and "a \<in> set accessions"
  shows "index accessions a < length rows
    \<and> index (if f \<notin> set flds then flds @ [f] else flds) f
        < length ((if f \<notin> set flds then map (\<lambda>r. r @ [''NA'']) rows else rows) ! index accessions a)"
proof -
  have i: "index accessions a < length rows"
    using assms by (simp add: cast_inv_def index_less)
  then have "length (rows ! index accessions a) = length flds"
    using assms(1) by (simp add: cast_inv_def)
  then show ?thesis using i by (simp add: index_less index_append_new)
qed

text \<open>
  Claim C3. Whatever the samples and the annotation stream, the caster returns one row
  per sample and every row is as long as the list of fields, also for a sample without
  annotations. The triples whose accession is not an accession of a sample are ignored:
  the result is the result on the stream without them, and every cell of every row is
  \<open>NA\<close> or the value of a triple whose accession is in the sample list. No field that is
  \<open>description\<close> in lower case is in the list of fields.
\<close>

theorem cast_alignment:
  assumes "cast samples annotations = (flds, rows)"
  shows "length rows = length samples
    \<and> (\<forall>i < length rows. length (rows ! i) = length flds)
    \<and> cast samples (filter (\<lambda>t. fst t \<in> accession ` set samples) annotations) = (flds, rows)
    \<and> (\<forall>r \<in> set rows. \<forall>c \<in> set r. c = ''NA'' \<or>
          (\<exists>t \<in> set annotations. fst t \<in> accession ` set samples \<and> snd (snd t) = c))
    \<and> (\<forall>f \<in> set flds. lower f \<noteq> ''description'')"
proof -
  let ?accs = "map accession samples"
  let ?S = "insert ''NA'' {c. \<exists>t \<in> set annotations. fst t \<in> set ?accs \<and> snd (snd t) = c}"
  have inv: "cast_inv (length samples) (flds, rows)"
    using cast_result_inv[of samples annotations] assms by simp
  have filt: "cast samples (filter (\<lambda>t. fst t \<in> accession ` set samples) annotations) = (flds, rows)"
    using cast_fold_filter[of ?accs annotations "([], map (\<lambda>a. []) ?accs)"] assms
    by (simp add: cast_def Let_def)
  have "\<forall>r \<in> set (snd (fold (cast_step ?accs) annotations ([], map (\<lambda>a. []) ?accs))). set r \<subseteq> ?S"
    by (rule cast_fold_cells) auto
  then have cells: "\<forall>r \<in> set rows. set r \<subseteq> ?S"
    using assms by (simp add: cast_def Let_def)
  have c1: "length rows = length samples" using inv by (simp add: cast_inv_def)
  have c2: "\<forall>i < length rows. length (rows ! i) = length flds"
    using inv by (simp add: cast_inv_def)
  have c4: "\<forall>r \<in> set rows. \<forall>c \<in> set r. c = ''NA'' \<or>
          (\<exists>t \<in> set annotations. fst t \<in> accession ` set samples \<and> snd (snd t) = c)"
    using cells by auto
  have c5: "\<forall>f \<in> set flds. lower f \<noteq> ''description''"
    using inv by (simp add: cast_inv_def)
  show ?thesis using c1 c2 filt c4 c5 by blast
qed

theorem cast_alignment_witness:
  "cast ex_samples ex_annotations
     = ([''x'', ''host''], [[''2'', ''NA''], [''NA'', ''mouse''], [''NA'', ''NA'']])
   \<and> length [[''2'', ''NA''], [''NA'', ''mouse''], [''NA'', ''NA'']] = length ex_samples
   \<and> cast ex_samples (filter (\<lambda>t. fst t \<in> accession ` set ex_samples) ex_annotations)
     = ([''x'', ''host''], [[''2'', ''NA''], [''NA'', ''mouse''], [''NA'', ''NA'']])
   \<and> lower ''x'' \<noteq> ''description''"
proof -
  have h: "cast ex_samples ex_annotations
     = ([''x'', ''host''], [[''2'', ''NA''], [''NA'', ''mouse''], [''NA'', ''NA'']])"
    by code_simp
  from cast_alignment[OF h] h show ?thesis by simp
qed

text \<open>
  Claim C7. Last write wins: when the stream holds a triple \<open>(a, f, v)\<close> for a sample
  accession \<open>a\<close> and a field \<open>f\<close> that is not the description, and no later triple has
  the same accession and the same field (compared case-sensitively), then \<open>f\<close> is a column
  and the cell of the sample with accession \<open>a\<close> in that column is \<open>v\<close>, whatever earlier
  triples wrote there. The witness is the stream \<open>(A, x, 1)\<close>, \<open>(A, x, 2)\<close>, where the
  cell is \<open>2\<close>.
\<close>

theorem cast_last_write_wins:
  assumes "cast samples (xs @ (a, f, v) # ys) = (flds, rows)"
    and "a \<in> accession ` set samples"
    and "lower f \<noteq> ''description''"
    and "\<forall>t \<in> set ys. \<not> (fst t = a \<and> fst (snd t) = f)"
  shows "f \<in> set flds \<and> rows ! index (map accession samples) a ! index flds f = v"
  using cast_last_write[of a samples f ys v xs] assms
  by (simp add: cell_holds_def)

theorem cast_last_write_wins_witness:
  "cast ex_samples ([(''A'', ''x'', ''1'')] @ (''A'', ''x'', ''2'') # [(''B'', ''x'', ''3'')])
     = ([''x''], [[''2''], [''3''], [''NA'']])
   \<and> ''A'' \<in> accession ` set ex_samples
   \<and> lower ''x'' \<noteq> ''description''
   \<and> ''x'' \<in> set [''x'']
   \<and> [[''2''], [''3''], [''NA'']] ! index (map accession ex_samples) ''A'' ! index [''x''] ''x'' = ''2''"
proof -
  have h: "cast ex_samples ([(''A'', ''x'', ''1'')] @ (''A'', ''x'', ''2'') # [(''B'', ''x'', ''3'')])
     = ([''x''], [[''2''], [''3''], [''NA'']])"
    by code_simp
  have a: "''A'' \<in> accession ` set ex_samples" by (simp add: ex_samples_def)
  have l: "lower ''x'' \<noteq> ''description''" by (simp add: lower_def)
  have n: "\<forall>t \<in> set [(''B'', ''x'', ''3'')]. \<not> (fst t = ''A'' \<and> fst (snd t) = ''x'')" by simp
  from cast_last_write_wins[OF h a l n] h a l show ?thesis by simp
qed

text \<open>
  Claim C10. When the accession \<open>a\<close> of sample \<open>j\<close> already stands earlier in the sample
  list, the row of sample \<open>j\<close> is \<open>NA\<close> in every column. The position that
  \<^verbatim>\<open>accessions.index\<close> finds for \<open>a\<close> is an earlier one, of a sample with that accession,
  and the last value of every triple stream for \<open>a\<close> and a field is in the row at that
  position.
\<close>

theorem cast_duplicate_accession:
  assumes "cast samples annotations = (flds, rows)"
    and "j < length samples"
    and "accession (samples ! j) = a"
    and "a \<in> set (take j (map accession samples))"
  shows "rows ! j = replicate (length flds) ''NA''
    \<and> index (map accession samples) a < j
    \<and> accession (samples ! index (map accession samples) a) = a
    \<and> (\<forall>xs f v ys.
          annotations = xs @ (a, f, v) # ys \<and> lower f \<noteq> ''description''
            \<and> (\<forall>t \<in> set ys. \<not> (fst t = a \<and> fst (snd t) = f))
          \<longrightarrow> f \<in> set flds \<and> rows ! index (map accession samples) a ! index flds f = v)"
proof -
  let ?accs = "map accession samples"
  let ?init = "([], map (\<lambda>a. []) ?accs) :: string list \<times> string list list"
  have inv: "cast_inv (length samples) (flds, rows)"
    using cast_result_inv[of samples annotations] assms(1) by simp
  have "dup_rows_na ?accs (snd (fold (cast_step ?accs) annotations ?init))"
    by (rule cast_fold_dup) (simp_all add: dup_rows_na_def)
  then have "dup_rows_na ?accs rows" using assms(1) by (simp add: cast_def Let_def)
  then have na: "set (rows ! j) \<subseteq> {''NA''}"
    using assms(2,3,4) by (simp add: dup_rows_na_def)
  have "length (rows ! j) = length flds"
    using inv assms(2) by (simp add: cast_inv_def)
  with na have c1: "rows ! j = replicate (length flds) ''NA''"
    by (metis replicate_eqI singletonD subsetD)
  have ain: "a \<in> set ?accs" using assms(4) by (auto dest: in_set_takeD)
  have c2: "index ?accs a < j"
  proof (rule ccontr)
    assume "\<not> index ?accs a < j"
    then have "set (take j ?accs) \<subseteq> set (take (index ?accs a) ?accs)"
      by (simp add: set_take_subset_set_take)
    with assms(4) index_first[of a ?accs] show False by blast
  qed
  have c3: "accession (samples ! index ?accs a) = a"
    using nth_index[OF ain] index_less[OF ain] by simp
  have c4: "f \<in> set flds \<and> rows ! index ?accs a ! index flds f = v"
    if "annotations = xs @ (a, f, v) # ys" "lower f \<noteq> ''description''"
      "\<forall>t \<in> set ys. \<not> (fst t = a \<and> fst (snd t) = f)" for xs f v ys
    using cast_last_write[OF ain that(2,3), of v xs] assms(1) that(1)
    by (simp add: cell_holds_def)
  show ?thesis using c1 c2 c3 c4 by blast
qed

theorem cast_duplicate_accession_witness:
  "cast ex_samples ex_annotations
     = ([''x'', ''host''], [[''2'', ''NA''], [''NA'', ''mouse''], [''NA'', ''NA'']])
   \<and> (2::nat) < length ex_samples
   \<and> accession (ex_samples ! 2) = ''A''
   \<and> ''A'' \<in> set (take 2 (map accession ex_samples))
   \<and> [[''2'', ''NA''], [''NA'', ''mouse''], [''NA'', ''NA'']] ! 2
       = replicate (length [''x'', ''host'']) ''NA''
   \<and> index (map accession ex_samples) ''A'' < 2"
proof -
  have h: "cast ex_samples ex_annotations
     = ([''x'', ''host''], [[''2'', ''NA''], [''NA'', ''mouse''], [''NA'', ''NA'']])"
    by code_simp
  have j: "(2::nat) < length ex_samples" by (simp add: ex_samples_def)
  have a: "accession (ex_samples ! 2) = ''A''" by (simp add: ex_samples_def)
  have t: "''A'' \<in> set (take 2 (map accession ex_samples))" by (simp add: ex_samples_def)
  from cast_duplicate_accession[OF h j a t] h j a t show ?thesis by simp
qed

subsection \<open>The QIIME writer\<close>

lemma qiime_columns_differ:
  "length annotation_row = length annotation_fields \<Longrightarrow>
   length (qiime_vals s annotation_row) = Suc (length (qiime_header annotation_fields))"
  by (simp add: qiime_vals_def qiime_header_def QIIME_FIELDS_def)

text \<open>
  Claim C1 asks for a header with as many columns as every data row. The writer takes
  the identity names of the header from \<^verbatim>\<open>QIIME_FIELDS\<close>, which has two entries, and
  writes three identity values (name, barcode, primer) into every row: a row has one
  column more than the header (\<open>qiime_columns_differ\<close>). For one sample and no
  annotation, the header line has three columns, \<open>SampleID\<close>, \<open>BarcodeSequence\<close> and
  \<open>Description\<close>, each of the five comment lines one, and the data row four.
\<close>

theorem create_qiime_header_columns:
  "qiime_header [] = [''SampleID'', ''BarcodeSequence'', ''Description'']
   \<and> qiime_vals (hd ex_samples) [] = [''s1'', ''AGCT'', ''AGG'', ''PCMP000001'']
   \<and> map (\<lambda>line. length (split TAB line)) (lines_of (create_qiime ex_run [hd ex_samples] []))
       = [3, 1, 1, 1, 1, 1, 4]"
  by code_simp

subsection \<open>The record parser on no input\<close>

text \<open>
  Claim C9. Parsing an empty sequence of lines does not yield the empty sequence of
  records: reading the header fails, so the request for the first record fails.
\<close>

theorem parse_no_lines: "parse [] = Inl HeaderMissing \<and> parse [] \<noteq> Inr []"
  by (simp add: parse_def)

subsection \<open>The format converter\<close>

lemma in_keys_dom: "k \<in> fst ` set r \<longleftrightarrow> map_of r k \<noteq> None"
  by (simp add: map_of_eq_None_iff)

lemma convert_field_refines:
  "map_sum id map_of (convert_field p r) = spec_convert_pair p (map_of r)"
proof -
  obtain q c where p: "p = (q, c)" by (cases p)
  show ?thesis
    unfolding p convert_field_def spec_convert_pair_def
    by (simp add: in_keys_dom domIff update_conv' delete_conv' split: option.splits)
qed

lemma convert_record_refines:
  "map_sum id map_of (convert_record r) = spec_convert (map_of r)"
proof -
  define r0 where "r0 = (if ''Description'' \<in> set (map fst r) then AList.delete ''Description'' r else r)"
  have m0: "map_of r0 = (map_of r)(''Description'' := None)"
  proof (cases "''Description'' \<in> set (map fst r)")
    case True
    then show ?thesis by (simp add: r0_def delete_conv')
  next
    case False
    then have "map_of r ''Description'' = None" by (simp add: map_of_eq_None_iff)
    then show ?thesis using False by (auto simp: r0_def)
  qed
  have cr: "convert_record r =
     (case convert_field (''SampleID'', ''sample_name'') r0 of
        Inl e \<Rightarrow> Inl e
      | Inr r' \<Rightarrow> convert_field (''BarcodeSequence'', ''barcode_sequence'') r')"
    by (simp add: convert_record_def QIIME_FIELDS_def r0_def Let_def split: sum.splits)
  have f1: "map_sum id map_of (convert_field (''SampleID'', ''sample_name'') r0)
              = spec_convert_pair (''SampleID'', ''sample_name'') ((map_of r)(''Description'' := None))"
    using convert_field_refines[of "(''SampleID'', ''sample_name'')" r0] by (simp add: m0)
  show ?thesis
  proof (cases "convert_field (''SampleID'', ''sample_name'') r0")
    case (Inl e)
    then have "spec_convert_pair (''SampleID'', ''sample_name'') ((map_of r)(''Description'' := None)) = Inl e"
      using f1 by simp
    then show ?thesis by (simp add: cr Inl spec_convert_def)
  next
    case (Inr r')
    then have s1: "spec_convert_pair (''SampleID'', ''sample_name'') ((map_of r)(''Description'' := None)) = Inr (map_of r')"
      using f1 by simp
    show ?thesis
      by (simp add: cr Inr spec_convert_def s1 convert_field_refines)
  qed
qed

lemma spec_convert_closed:
  "spec_convert m =
     (if ''sample_name'' \<in> dom m \<or> ''barcode_sequence'' \<in> dom m then Inl ConflictError
      else Inr (\<lambda>k. if k = ''sample_name'' then m ''SampleID''
                     else if k = ''barcode_sequence'' then m ''BarcodeSequence''
                     else if k \<in> {''Description'', ''SampleID'', ''BarcodeSequence''} then None
                     else m k))"
  by (auto simp: spec_convert_def spec_convert_pair_def fun_eq_iff dom_def split: option.splits)

lemma convert_from_qiime_Inr:
  "convert_from_qiime recs = Inr rs \<longleftrightarrow> list_all2 (\<lambda>r r'. convert_record r = Inr r') recs rs"
proof (induction recs arbitrary: rs)
  case Nil
  then show ?case by auto
next
  case (Cons r recs)
  show ?case
  proof (cases "convert_record r")
    case (Inl e)
    then show ?thesis by (simp add: list_all2_Cons1)
  next
    case r': (Inr r')
    show ?thesis
    proof (cases "convert_from_qiime recs")
      case (Inl e)
      then have "\<not> list_all2 (\<lambda>r r'. convert_record r = Inr r') recs zs" for zs
        using Cons.IH[of zs] by simp
      then show ?thesis using r' Inl by (simp add: list_all2_Cons1)
    next
      case (Inr rs')
      then have "list_all2 (\<lambda>r r'. convert_record r = Inr r') recs zs \<longleftrightarrow> zs = rs'" for zs
        using Cons.IH[of zs] by auto
      then show ?thesis using r' Inr by (auto simp: list_all2_Cons1)
    qed
  qed
qed

lemma convert_from_qiime_Inl:
  "convert_from_qiime recs = Inl e \<longleftrightarrow>
     (\<exists>n < length recs. convert_record (recs ! n) = Inl e
        \<and> (\<forall>i < n. \<exists>r'. convert_record (recs ! i) = Inr r'))"
proof (induction recs)
  case Nil
  then show ?case by simp
next
  case (Cons r recs)
  show ?case
  proof (cases "convert_record r")
    case (Inl e')
    show ?thesis
    proof
      assume "convert_from_qiime (r # recs) = Inl e"
      then have "e' = e" using Inl by simp
      then have "convert_record ((r # recs) ! 0) = Inl e" using Inl by simp
      then show "\<exists>n < length (r # recs). convert_record ((r # recs) ! n) = Inl e
        \<and> (\<forall>i < n. \<exists>r'. convert_record ((r # recs) ! i) = Inr r')" by blast
    next
      assume "\<exists>n < length (r # recs). convert_record ((r # recs) ! n) = Inl e
        \<and> (\<forall>i < n. \<exists>r'. convert_record ((r # recs) ! i) = Inr r')"
      then obtain n where n: "convert_record ((r # recs) ! n) = Inl e"
        "\<forall>i < n. \<exists>r'. convert_record ((r # recs) ! i) = Inr r'" by blast
      have "n = 0"
      proof (rule ccontr)
        assume "n \<noteq> 0"
        then have "\<exists>r'. convert_record ((r # recs) ! 0) = Inr r'" using n(2) by blast
        then show False using Inl by simp
      qed
      then show "convert_from_qiime (r # recs) = Inl e" using n(1) Inl by simp
    qed
  next
    case (Inr r')
    have "convert_from_qiime (r # recs) = Inl e \<longleftrightarrow> convert_from_qiime recs = Inl e"
      using Inr by (simp split: sum.splits)
    also have "\<dots> \<longleftrightarrow> (\<exists>n < length recs. convert_record (recs ! n) = Inl e
        \<and> (\<forall>i < n. \<exists>r'. convert_record (recs ! i) = Inr r'))" by (rule Cons.IH)
    also have "\<dots> \<longleftrightarrow> (\<exists>n < length (r # recs). convert_record ((r # recs) ! n) = Inl e
        \<and> (\<forall>i < n. \<exists>r'. convert_record ((r # recs) ! i) = Inr r'))" (is "?L \<longleftrightarrow> ?R")
    proof
      assume ?L
      then obtain n where n: "n < length recs" "convert_record (recs ! n) = Inl e"
        "\<forall>i < n. \<exists>r'. convert_record (recs ! i) = Inr r'" by blast
      have "\<forall>i < Suc n. \<exists>r'. convert_record ((r # recs) ! i) = Inr r'"
        using n(3) Inr by (auto simp: nth_Cons split: nat.splits)
      with n(1,2) show ?R by (intro exI[of _ "Suc n"]) simp
    next
      assume ?R
      then obtain n where n: "n < length (r # recs)" "convert_record ((r # recs) ! n) = Inl e"
        "\<forall>i < n. \<exists>r'. convert_record ((r # recs) ! i) = Inr r'" by blast
      then obtain m where m: "n = Suc m" using Inr by (cases n) auto
      have "\<forall>i < m. \<exists>r'. convert_record (recs ! i) = Inr r'"
        using n(3) m by (metis Suc_less_eq nth_Cons_Suc)
      with n(1,2) m show ?L by (intro exI[of _ m]) simp
    qed
    finally show ?thesis .
  qed
qed

text \<open>
  Claim C4. The converter on one record is the conversion in the words of the
  specification (\<open>spec_convert\<close>): the \<open>Description\<close> key is removed, and for each pair
  of the rename table a core name that is already a key is a conflict, otherwise the
  value of the QIIME name, when present, moves to the core name. So a record is refused
  exactly when it has the key \<open>sample_name\<close> or \<open>barcode_sequence\<close>, and otherwise the
  result maps \<open>sample_name\<close> to the value of \<open>SampleID\<close>, \<open>barcode_sequence\<close> to the value of
  \<open>BarcodeSequence\<close>, drops those two keys and \<open>Description\<close>, and keeps the rest. On a
  sequence, the converter yields the converted records in order, or fails with the
  error of the first record that is refused. The record with \<open>SampleID\<close> and
  \<open>sample_name\<close> both \<open>S1\<close> raises the conflict error.
\<close>

theorem convert_from_qiime_spec:
  "map_sum id map_of (convert_record r) = spec_convert (map_of r)
   \<and> (convert_record r = Inl ConflictError \<longleftrightarrow>
         ''sample_name'' \<in> fst ` set r \<or> ''barcode_sequence'' \<in> fst ` set r)
   \<and> (''sample_name'' \<notin> fst ` set r \<and> ''barcode_sequence'' \<notin> fst ` set r \<longrightarrow>
        (\<exists>r'. convert_record r = Inr r' \<and>
           map_of r' =
             (\<lambda>k. if k = ''sample_name'' then map_of r ''SampleID''
                   else if k = ''barcode_sequence'' then map_of r ''BarcodeSequence''
                   else if k \<in> {''Description'', ''SampleID'', ''BarcodeSequence''} then None
                   else map_of r k)))
   \<and> (convert_from_qiime recs = Inr rs \<longleftrightarrow>
        list_all2 (\<lambda>r r'. convert_record r = Inr r') recs rs)
   \<and> (convert_from_qiime recs = Inl e \<longleftrightarrow>
        (\<exists>n < length recs. convert_record (recs ! n) = Inl e
           \<and> (\<forall>i < n. \<exists>r'. convert_record (recs ! i) = Inr r')))
   \<and> convert_from_qiime [[(''SampleID'', ''S1''), (''sample_name'', ''S1'')]] = Inl ConflictError"
proof -
  note ref = convert_record_refines[of r]
  have dom: "k \<in> dom (map_of r) \<longleftrightarrow> k \<in> fst ` set r" for k
    by (simp add: in_keys_dom domIff)
  have a: "convert_record r = Inl ConflictError \<longleftrightarrow>
         ''sample_name'' \<in> fst ` set r \<or> ''barcode_sequence'' \<in> fst ` set r"
  proof (cases "convert_record r")
    case (Inl e)
    then show ?thesis using ref
      by (auto simp: spec_convert_closed dom split: if_splits)
  next
    case (Inr r')
    then show ?thesis using ref
      by (auto simp: spec_convert_closed dom split: if_splits)
  qed
  have b: "\<exists>r'. convert_record r = Inr r' \<and>
           map_of r' =
             (\<lambda>k. if k = ''sample_name'' then map_of r ''SampleID''
                   else if k = ''barcode_sequence'' then map_of r ''BarcodeSequence''
                   else if k \<in> {''Description'', ''SampleID'', ''BarcodeSequence''} then None
                   else map_of r k)"
    if "''sample_name'' \<notin> fst ` set r \<and> ''barcode_sequence'' \<notin> fst ` set r"
  proof (cases "convert_record r")
    case (Inl e)
    then show ?thesis using ref that
      by (simp add: spec_convert_closed dom)
  next
    case (Inr r')
    then show ?thesis using ref that
      by (simp add: spec_convert_closed dom)
  qed
  have c: "convert_from_qiime [[(''SampleID'', ''S1''), (''sample_name'', ''S1'')]] = Inl ConflictError"
    by code_simp
  show ?thesis
    using ref a b c convert_from_qiime_Inr[of recs rs] convert_from_qiime_Inl[of recs e]
    by blast
qed

theorem convert_from_qiime_spec_witness:
  "convert_from_qiime [ex_qiime_record]
     = Inr [[(''plate'', ''P1''), (''sample_name'', ''S1''), (''barcode_sequence'', ''AGCT'')]]
   \<and> list_all2 (\<lambda>r r'. convert_record r = Inr r') [ex_qiime_record]
        [[(''plate'', ''P1''), (''sample_name'', ''S1''), (''barcode_sequence'', ''AGCT'')]]
   \<and> ''sample_name'' \<notin> fst ` set ex_qiime_record
   \<and> ''barcode_sequence'' \<notin> fst ` set ex_qiime_record
   \<and> convert_record ex_qiime_record \<noteq> Inl ConflictError"
proof -
  have h: "convert_from_qiime [ex_qiime_record]
     = Inr [[(''plate'', ''P1''), (''sample_name'', ''S1''), (''barcode_sequence'', ''AGCT'')]]"
    by code_simp
  have n1: "''sample_name'' \<notin> fst ` set ex_qiime_record" by (simp add: ex_qiime_record_def)
  have n2: "''barcode_sequence'' \<notin> fst ` set ex_qiime_record" by (simp add: ex_qiime_record_def)
  from convert_from_qiime_spec[of ex_qiime_record "[ex_qiime_record]"
      "[[(''plate'', ''P1''), (''sample_name'', ''S1''), (''barcode_sequence'', ''AGCT'')]]" ConflictError]
    h n1 n2 show ?thesis by blast
qed

subsection \<open>The validator\<close>

lemma check_chars_cases:
  "check_chars cs r = Inr () \<or> (\<exists>k. check_chars cs r = Inl (InvalidCharacterError k))"
  by (induction cs r rule: check_chars.induct) (auto split: option.splits)

lemma check_chars_ok_iff:
  "check_chars cs r = Inr () \<longleftrightarrow>
     \<not> (\<exists>(key, char_set) \<in> set cs.
           case map_of r key of None \<Rightarrow> False | Some val \<Rightarrow> \<exists>c \<in> set val. c \<notin> char_set)"
  by (induction cs r rule: check_chars.induct) (auto simp: list_all_iff split: option.splits)

lemma check_chars_allowed: "check_chars ALLOWED_CHARS r = Inr () \<longleftrightarrow> \<not> has_illegal_chars r"
  by (simp add: check_chars_ok_iff has_illegal_chars_def)

lemma validate_record_invalid:
  "raises_invalid_character (validate_record st r) \<longleftrightarrow> has_illegal_chars r"
proof (cases "check_chars ALLOWED_CHARS r = Inr ()")
  case True
  then have "\<not> has_illegal_chars r" by (simp add: check_chars_allowed)
  moreover have "\<not> raises_invalid_character (validate_record st r)"
    using True
    by (cases st) (simp add: validate_record_def raises_invalid_character_def Let_def split: option.splits)
  ultimately show ?thesis by simp
next
  case False
  then obtain k where k: "check_chars ALLOWED_CHARS r = Inl (InvalidCharacterError k)"
    using check_chars_cases[of ALLOWED_CHARS r] by auto
  then have "raises_invalid_character (validate_record st r)"
    by (cases st) (simp add: validate_record_def raises_invalid_character_def)
  moreover have "has_illegal_chars r" using False by (simp add: check_chars_allowed)
  ultimately show ?thesis by simp
qed

lemma validate_single:
  "validate [r] = (case validate_record ({}, {}) r of Inl e \<Rightarrow> Inl e | Inr st \<Rightarrow> Inr ())"
  by (simp add: validate_def split: sum.splits)

lemma validate_single_invalid:
  "raises_invalid_character (validate [r]) \<longleftrightarrow> has_illegal_chars r"
  using validate_record_invalid[of "({}, {})" r]
  by (simp add: validate_single raises_invalid_character_def split: sum.splits)

lemma validate_loop_invalid:
  "raises_invalid_character (validate_loop st recs) \<longleftrightarrow>
     (\<exists>j < length recs. has_illegal_chars (recs ! j)
        \<and> (\<exists>st'. validate_loop st (take j recs) = Inr st'))"
proof (induction recs arbitrary: st)
  case Nil
  then show ?case by (simp add: raises_invalid_character_def)
next
  case (Cons r recs)
  show ?case
  proof (cases "validate_record st r")
    case (Inl e)
    have l: "raises_invalid_character (validate_loop st (r # recs)) \<longleftrightarrow> has_illegal_chars r"
      using validate_record_invalid[of st r] by (simp add: Inl)
    have "(\<exists>j < length (r # recs). has_illegal_chars ((r # recs) ! j)
        \<and> (\<exists>st'. validate_loop st (take j (r # recs)) = Inr st')) \<longleftrightarrow> has_illegal_chars r"
      (is "?R \<longleftrightarrow> _")
    proof
      assume ?R
      then obtain j st' where j: "has_illegal_chars ((r # recs) ! j)"
        "validate_loop st (take j (r # recs)) = Inr st'" by blast
      have "j = 0" using j(2) Inl by (cases j) simp_all
      then show "has_illegal_chars r" using j(1) by simp
    next
      assume "has_illegal_chars r"
      then have "has_illegal_chars ((r # recs) ! 0) \<and> (\<exists>st'. validate_loop st (take 0 (r # recs)) = Inr st')"
        by simp
      then show ?R by (intro exI[of _ 0]) simp
    qed
    with l show ?thesis by simp
  next
    case (Inr st1)
    have nr: "\<not> has_illegal_chars r"
      using validate_record_invalid[of st r] by (simp add: Inr raises_invalid_character_def)
    have "raises_invalid_character (validate_loop st (r # recs)) \<longleftrightarrow>
        (\<exists>m < length recs. has_illegal_chars (recs ! m)
          \<and> (\<exists>st'. validate_loop st1 (take m recs) = Inr st'))"
      using Cons.IH[of st1] by (simp add: Inr)
    also have "\<dots> \<longleftrightarrow> (\<exists>j < length (r # recs). has_illegal_chars ((r # recs) ! j)
        \<and> (\<exists>st'. validate_loop st (take j (r # recs)) = Inr st'))" (is "?L \<longleftrightarrow> ?R")
    proof
      assume ?L
      then obtain m st' where m: "m < length recs" "has_illegal_chars (recs ! m)"
        "validate_loop st1 (take m recs) = Inr st'" by blast
      then have "Suc m < length (r # recs) \<and> has_illegal_chars ((r # recs) ! Suc m)
        \<and> (\<exists>st'. validate_loop st (take (Suc m) (r # recs)) = Inr st')"
        by (simp add: Inr)
      then show ?R by blast
    next
      assume ?R
      then obtain j st' where j: "j < length (r # recs)" "has_illegal_chars ((r # recs) ! j)"
        "validate_loop st (take j (r # recs)) = Inr st'" by blast
      then obtain m where m: "j = Suc m" using nr by (cases j) auto
      then have "m < length recs \<and> has_illegal_chars (recs ! m)
        \<and> (\<exists>st'. validate_loop st1 (take m recs) = Inr st')"
        using j by (simp add: Inr)
      then show ?L by blast
    qed
    finally show ?thesis .
  qed
qed

lemma validate_passes_iff:
  "validate recs = Inr () \<longleftrightarrow> (\<exists>st. validate_loop ({}, {}) recs = Inr st)"
  by (simp add: validate_def split: sum.splits)

lemma validate_raises_invalid:
  "raises_invalid_character (validate recs) \<longleftrightarrow>
     raises_invalid_character (validate_loop ({}, {}) recs)"
  by (simp add: validate_def raises_invalid_character_def split: sum.splits)

lemma validate_sequence_invalid:
  "raises_invalid_character (validate recs) \<longleftrightarrow>
     (\<exists>j < length recs. has_illegal_chars (recs ! j) \<and> validate (take j recs) = Inr ())"
  by (simp add: validate_raises_invalid validate_loop_invalid validate_passes_iff)

text \<open>
  Claim C6. For every record and every state of the validator, the loop body raises the
  invalid character error exactly when some constrained field present in the record
  (\<open>sample_name\<close>, \<open>barcode_sequence\<close>, \<open>primer_sequence\<close>) has a value with a character
  outside the allowed set of the field; so does the validator on the record alone. On a
  sequence of records, the validator raises the invalid character error exactly when some
  record has such a value and the records before it pass the validator: every record of
  the input is checked, not only the first. The barcode \<open>AGCN\<close> fails and \<open>AGCT\<close>
  passes.
\<close>

theorem validate_illegal_characters:
  "(raises_invalid_character (validate_record st r) \<longleftrightarrow> has_illegal_chars r)
   \<and> (raises_invalid_character (validate [r]) \<longleftrightarrow> has_illegal_chars r)
   \<and> (raises_invalid_character (validate recs) \<longleftrightarrow>
        (\<exists>j < length recs. has_illegal_chars (recs ! j) \<and> validate (take j recs) = Inr ()))
   \<and> validate [[(''sample_name'', ''S1''), (''barcode_sequence'', ''AGCN'')]]
       = Inl (InvalidCharacterError ''barcode_sequence'')
   \<and> validate [[(''sample_name'', ''S1''), (''barcode_sequence'', ''AGCT'')]] = Inr ()"
proof -
  have a: "validate [[(''sample_name'', ''S1''), (''barcode_sequence'', ''AGCN'')]]
       = Inl (InvalidCharacterError ''barcode_sequence'')" by code_simp
  have b: "validate [[(''sample_name'', ''S1''), (''barcode_sequence'', ''AGCT'')]] = Inr ()"
    by code_simp
  show ?thesis
    using validate_record_invalid[of st r] validate_single_invalid[of r]
      validate_sequence_invalid[of recs] a b
    by blast
qed

theorem validate_illegal_characters_witness:
  "has_illegal_chars [(''sample_name'', ''S1''), (''barcode_sequence'', ''AGCN'')]
   \<and> raises_invalid_character (validate [[(''sample_name'', ''S1''), (''barcode_sequence'', ''AGCN'')]])
   \<and> \<not> has_illegal_chars [(''sample_name'', ''S1''), (''barcode_sequence'', ''AGCT'')]
   \<and> \<not> raises_invalid_character (validate [[(''sample_name'', ''S1''), (''barcode_sequence'', ''AGCT'')]])
   \<and> has_illegal_chars
        ([[(''sample_name'', ''S1''), (''barcode_sequence'', ''AGCT'')],
          [(''sample_name'', ''S2''), (''barcode_sequence'', ''AGCN'')]] ! 1)
   \<and> validate (take 1
        [[(''sample_name'', ''S1''), (''barcode_sequence'', ''AGCT'')],
         [(''sample_name'', ''S2''), (''barcode_sequence'', ''AGCN'')]]) = Inr ()
   \<and> raises_invalid_character
        (validate [[(''sample_name'', ''S1''), (''barcode_sequence'', ''AGCT'')],
                   [(''sample_name'', ''S2''), (''barcode_sequence'', ''AGCN'')]])"
proof -
  have a: "has_illegal_chars [(''sample_name'', ''S1''), (''barcode_sequence'', ''AGCN'')]"
    by code_simp
  have b: "\<not> has_illegal_chars [(''sample_name'', ''S1''), (''barcode_sequence'', ''AGCT'')]"
    by code_simp
  have c: "has_illegal_chars
        ([[(''sample_name'', ''S1''), (''barcode_sequence'', ''AGCT'')],
          [(''sample_name'', ''S2''), (''barcode_sequence'', ''AGCN'')]] ! 1)"
    by code_simp
  have d: "validate (take 1
        [[(''sample_name'', ''S1''), (''barcode_sequence'', ''AGCT'')],
         [(''sample_name'', ''S2''), (''barcode_sequence'', ''AGCN'')]]) = Inr ()"
    by code_simp
  have e: "(1::nat) < length
        [[(''sample_name'', ''S1''), (''barcode_sequence'', ''AGCT'')],
         [(''sample_name'', ''S2''), (''barcode_sequence'', ''AGCN'')]]"
    by simp
  from validate_illegal_characters[of "({}, {})" "[(''sample_name'', ''S1''), (''barcode_sequence'', ''AGCN'')]"
      "[[(''sample_name'', ''S1''), (''barcode_sequence'', ''AGCT'')],
        [(''sample_name'', ''S2''), (''barcode_sequence'', ''AGCN'')]]"]
    validate_illegal_characters[of "({}, {})" "[(''sample_name'', ''S1''), (''barcode_sequence'', ''AGCT'')]" "[]"]
    a b c d e show ?thesis by blast
qed


lemma sample_names_of_Cons:
  "sample_names_of (r # recs) =
     (case map_of r ''sample_name'' of None \<Rightarrow> sample_names_of recs
      | Some n \<Rightarrow> n # sample_names_of recs)"
  by (simp add: sample_names_of_def map_filter_simps split: option.splits)

lemma dup_in_Nil: "\<not> dup_in N B []"
  by (simp add: dup_in_def sample_name_repeats_def barcode_repeats_def sample_names_of_def map_filter_simps)

lemma dup_in_Cons:
  assumes "map_of r ''sample_name'' = Some n"
  shows "dup_in N B (r # recs) \<longleftrightarrow>
     n \<in> N \<or> barcode_of r \<in> B \<or> dup_in (insert n N) (insert (barcode_of r) B) recs"
  using assms
  by (auto simp: dup_in_def sample_name_repeats_def barcode_repeats_def sample_names_of_Cons)

lemma validate_record_ok:
  assumes "record_ok r" and "map_of r ''sample_name'' = Some n"
  shows "validate_record (N, B) r =
     (if n \<in> N then Inl (DuplicateError ''sample_name'')
      else if barcode_of r \<in> B then Inl (DuplicateError ''barcode'')
      else Inr (insert n N, insert (barcode_of r) B))"
proof -
  have "check_chars ALLOWED_CHARS r = Inr ()"
    using assms(1) by (simp add: record_ok_def check_chars_allowed)
  then show ?thesis using assms(2)
    by (simp add: validate_record_def barcode_of_def Let_def)
qed

lemma validate_record_not_ok:
  assumes "\<not> record_ok r"
  shows "\<exists>e. validate_record st r = Inl e \<and> \<not> is_DuplicateError e"
proof (cases "check_chars ALLOWED_CHARS r = Inr ()")
  case True
  then have "map_of r ''sample_name'' = None"
    using assms by (simp add: record_ok_def check_chars_allowed)
  then show ?thesis using True
    by (cases st) (simp add: validate_record_def)
next
  case False
  then obtain k where "check_chars ALLOWED_CHARS r = Inl (InvalidCharacterError k)"
    using check_chars_cases[of ALLOWED_CHARS r] by auto
  then show ?thesis
    by (cases st) (simp add: validate_record_def)
qed

lemma validate_loop_duplicate:
  "raises_duplicate (validate_loop (N, B) recs) \<longleftrightarrow>
     (\<exists>n \<le> length recs. list_all record_ok (take n recs) \<and> dup_in N B (take n recs))"
proof (induction recs arbitrary: N B)
  case Nil
  then show ?case by (simp add: raises_duplicate_def dup_in_Nil)
next
  case (Cons r recs)
  have ex_Suc: "(\<exists>n \<le> length (r # recs). list_all record_ok (take n (r # recs)) \<and> dup_in N B (take n (r # recs)))
     \<longleftrightarrow> (\<exists>m \<le> length recs. record_ok r \<and> list_all record_ok (take m recs) \<and> dup_in N B (r # take m recs))"
    (is "?L \<longleftrightarrow> ?R")
  proof
    assume ?L
    then obtain n where n: "n \<le> length (r # recs)" "list_all record_ok (take n (r # recs))"
      "dup_in N B (take n (r # recs))" by blast
    then obtain m where "n = Suc m" using dup_in_Nil[of N B] by (cases n) auto
    with n show ?R by (intro exI[of _ m]) simp
  next
    assume ?R
    then obtain m where "m \<le> length recs" "record_ok r" "list_all record_ok (take m recs)"
      "dup_in N B (r # take m recs)" by blast
    then show ?L by (intro exI[of _ "Suc m"]) simp
  qed
  show ?case
  proof (cases "record_ok r")
    case False
    then obtain e where "validate_record (N, B) r = Inl e" "\<not> is_DuplicateError e"
      using validate_record_not_ok[of r "(N, B)"] by blast
    then have "\<not> raises_duplicate (validate_loop (N, B) (r # recs))"
      by (simp add: raises_duplicate_def)
    then show ?thesis using False ex_Suc by simp
  next
    case True
    then obtain n where n: "map_of r ''sample_name'' = Some n" by (auto simp: record_ok_def)
    note vr = validate_record_ok[OF True n, of N B]
    show ?thesis
    proof (cases "n \<in> N \<or> barcode_of r \<in> B")
      case dup: True
      then have "raises_duplicate (validate_loop (N, B) (r # recs))"
        by (auto simp: vr raises_duplicate_def)
      moreover have "dup_in N B (r # take 0 recs)" using dup dup_in_Cons[OF n, of N B "[]"] by auto
      then have ?R using True by (intro exI[of _ 0]) simp
      ultimately show ?thesis using ex_Suc by simp
    next
      case nodup: False
      then have "validate_loop (N, B) (r # recs) = validate_loop (insert n N, insert (barcode_of r) B) recs"
        by (simp add: vr)
      then have "raises_duplicate (validate_loop (N, B) (r # recs)) \<longleftrightarrow>
        (\<exists>m \<le> length recs. list_all record_ok (take m recs)
            \<and> dup_in (insert n N) (insert (barcode_of r) B) (take m recs))"
        using Cons.IH[of "insert n N" "insert (barcode_of r) B"] by simp
      also have "\<dots> \<longleftrightarrow> ?R" using True nodup by (simp add: dup_in_Cons[OF n])
      finally show ?thesis using ex_Suc by simp
    qed
  qed
qed

lemma validate_raises_duplicate:
  "raises_duplicate (validate recs) \<longleftrightarrow> raises_duplicate (validate_loop ({}, {}) recs)"
  by (simp add: validate_def raises_duplicate_def split: sum.splits)

lemma dup_in_empty: "dup_in {} {} recs \<longleftrightarrow> sample_name_repeats recs \<or> barcode_repeats recs"
  by (simp add: dup_in_def)

lemma sample_names_of_append:
  "sample_names_of (xs @ ys) = sample_names_of xs @ sample_names_of ys"
  by (induction xs) (simp_all add: sample_names_of_def map_filter_simps split: option.splits)

lemma repeats_take:
  assumes "sample_name_repeats (take n recs) \<or> barcode_repeats (take n recs)"
  shows "sample_name_repeats recs \<or> barcode_repeats recs"
proof -
  have "sample_names_of recs = sample_names_of (take n recs) @ sample_names_of (drop n recs)"
    by (metis append_take_drop_id sample_names_of_append)
  then have "distinct (sample_names_of recs) \<Longrightarrow> distinct (sample_names_of (take n recs))"
    by simp
  moreover have "distinct (map barcode_of recs) \<Longrightarrow> distinct (map barcode_of (take n recs))"
    by (metis append_take_drop_id distinct_append map_append)
  ultimately show ?thesis using assms
    by (auto simp: sample_name_repeats_def barcode_repeats_def)
qed

text \<open>
  Claim C5 as stated fails: in \<open>dup_cex\<close> the name \<open>S1\<close> repeats, but the second record
  is refused for its barcode \<open>N\<close> before the names are compared.
\<close>

theorem validate_duplicate_counterexample:
  "\<not> (raises_duplicate (validate dup_cex) \<longleftrightarrow> sample_name_repeats dup_cex \<or> barcode_repeats dup_cex)"
  by code_simp

text \<open>
  Claim C5, as amended. The validator raises the duplicate error exactly when some
  prefix of the records consists of records that pass the character check and have a
  sample name, and a sample name or a barcode value (the empty text when the field is
  absent) repeats within that prefix. A duplicate error always means that a name or a
  barcode value repeats; when every record passes the character check and has a sample
  name, the converse holds too. The witness has two records named \<open>S1\<close>, and two records
  without a barcode.
\<close>

theorem validate_duplicates:
  "(raises_duplicate (validate recs) \<longleftrightarrow>
      (\<exists>n \<le> length recs. list_all record_ok (take n recs)
          \<and> (sample_name_repeats (take n recs) \<or> barcode_repeats (take n recs))))
   \<and> (raises_duplicate (validate recs) \<longrightarrow> sample_name_repeats recs \<or> barcode_repeats recs)
   \<and> (list_all record_ok recs \<longrightarrow>
        (raises_duplicate (validate recs) \<longleftrightarrow> sample_name_repeats recs \<or> barcode_repeats recs))"
proof -
  have a: "raises_duplicate (validate recs) \<longleftrightarrow>
      (\<exists>n \<le> length recs. list_all record_ok (take n recs)
          \<and> (sample_name_repeats (take n recs) \<or> barcode_repeats (take n recs)))"
    by (simp add: validate_raises_duplicate validate_loop_duplicate dup_in_empty)
  have b: "sample_name_repeats recs \<or> barcode_repeats recs" if "raises_duplicate (validate recs)"
    using that a repeats_take by blast
  have c: "raises_duplicate (validate recs)"
    if "list_all record_ok recs" "sample_name_repeats recs \<or> barcode_repeats recs"
  proof -
    have "list_all record_ok (take (length recs) recs)
          \<and> (sample_name_repeats (take (length recs) recs) \<or> barcode_repeats (take (length recs) recs))"
      using that by simp
    then show ?thesis using a by blast
  qed
  show ?thesis using a b c by blast
qed

theorem validate_duplicates_witness:
  "raises_duplicate (validate [[(''sample_name'', ''S1'')], [(''sample_name'', ''S1'')]])
   \<and> raises_duplicate (validate [[(''sample_name'', ''S1'')], [(''sample_name'', ''S2'')]])
   \<and> list_all record_ok [[(''sample_name'', ''S1'')], [(''sample_name'', ''S1'')]]
   \<and> sample_name_repeats [[(''sample_name'', ''S1'')], [(''sample_name'', ''S1'')]]
   \<and> list_all record_ok [[(''sample_name'', ''S1'')], [(''sample_name'', ''S2'')]]
   \<and> barcode_repeats [[(''sample_name'', ''S1'')], [(''sample_name'', ''S2'')]]"
proof -
  have o1: "list_all record_ok [[(''sample_name'', ''S1'')], [(''sample_name'', ''S1'')]]"
    by code_simp
  have r1: "sample_name_repeats [[(''sample_name'', ''S1'')], [(''sample_name'', ''S1'')]]"
    by code_simp
  have o2: "list_all record_ok [[(''sample_name'', ''S1'')], [(''sample_name'', ''S2'')]]"
    by code_simp
  have r2: "barcode_repeats [[(''sample_name'', ''S1'')], [(''sample_name'', ''S2'')]]"
    by code_simp
  from validate_duplicates[of "[[(''sample_name'', ''S1'')], [(''sample_name'', ''S1'')]]"]
    validate_duplicates[of "[[(''sample_name'', ''S1'')], [(''sample_name'', ''S2'')]]"]
    o1 r1 o2 r2 show ?thesis by blast
qed

subsection \<open>Splitting, joining and trimming\<close>

lemma split_no_sep: "c \<notin> set x \<Longrightarrow> split c x = [x]"
  by (induction x) auto

lemma split_append_sep:
  "c \<notin> set x \<Longrightarrow> split c (x @ c # rest) = x # split c rest"
  by (induction x) auto

lemma split_join:
  "xs \<noteq> [] \<Longrightarrow> \<forall>x \<in> set xs. c \<notin> set x \<Longrightarrow> split c (join [c] xs) = xs"
proof (induction "[c]" xs rule: join.induct)
  case 1
  then show ?case by simp
next
  case (2 x)
  then show ?case by (simp add: split_no_sep)
next
  case (3 x y ys)
  then show ?case by (simp add: split_append_sep)
qed

lemma set_join: "set (join sep xs) \<subseteq> set sep \<union> \<Union> (set ` set xs)"
  by (induction sep xs rule: join.induct) auto

lemma length_split_pos: "split c s \<noteq> []"
  by (induction s) (auto split: list.splits)

lemma lines_of_line:
  "NL \<notin> set l \<Longrightarrow> lines_of (l @ NL # rest) = (l @ [NL]) # lines_of rest"
  by (induction l) auto

lemma lines_of_concat:
  "\<forall>l \<in> set ls. NL \<notin> set l \<Longrightarrow>
   lines_of (concat (map (\<lambda>l. l @ [NL]) ls)) = map (\<lambda>l. l @ [NL]) ls"
  by (induction ls) (simp_all add: lines_of_line)

lemma fold_append_concat:
  "fold (\<lambda>s f. f @ h s) xs f0 = f0 @ concat (map h xs)"
  by (induction xs arbitrary: f0) simp_all

lemma rstrip_line:
  assumes "l = [] \<or> last l \<notin> set cs" and "c \<in> set cs"
  shows "rstrip cs (l @ [c]) = l"
proof (cases "l = []")
  case True
  then show ?thesis using assms(2) by (simp add: rstrip_def)
next
  case False
  then obtain b a where l: "l = b @ [a]" by (metis rev_exhaust)
  then have "a \<notin> set cs" using assms(1) by simp
  then show ?thesis using assms(2) by (simp add: rstrip_def l)
qed

lemma strip_fixed_ends:
  assumes "strip x = x" and "x \<noteq> []"
  shows "\<not> isspace (hd x) \<and> \<not> isspace (last x)"
proof -
  have len1: "length (rev (dropWhile isspace (rev ys))) \<le> length ys" for ys
    using length_dropWhile_le[of isspace "rev ys"] by simp
  have h: "\<not> isspace (hd x)"
  proof
    assume "isspace (hd x)"
    then have "length (dropWhile isspace x) < length x"
      using assms(2) by (cases x) (auto simp: le_imp_less_Suc length_dropWhile_le)
    moreover have "length (strip x) \<le> length (dropWhile isspace x)"
      unfolding strip_def by (rule len1)
    ultimately show False using assms(1) by simp
  qed
  then have d: "dropWhile isspace x = x" using assms(2) by (cases x) auto
  have "\<not> isspace (last x)"
  proof
    assume "isspace (last x)"
    then have "isspace (hd (rev x))" using assms(2) by (simp add: hd_rev)
    then have "length (dropWhile isspace (rev x)) < length (rev x)"
      using assms(2) by (cases "rev x") (auto simp: le_imp_less_Suc length_dropWhile_le)
    then have "length (strip x) < length x" by (simp add: strip_def d)
    then show False using assms(1) by simp
  qed
  with h show ?thesis by simp
qed

lemma strip_empty_iff: "strip s = [] \<longleftrightarrow> (\<forall>c \<in> set s. isspace c)"
proof -
  have "strip s = [] \<longleftrightarrow> (\<forall>c \<in> set (dropWhile isspace s). isspace c)"
    by (simp add: strip_def dropWhile_eq_Nil_conv)
  also have "\<dots> \<longleftrightarrow> dropWhile isspace s = []"
  proof
    assume a: "\<forall>c \<in> set (dropWhile isspace s). isspace c"
    show "dropWhile isspace s = []"
    proof (rule ccontr)
      assume ne: "dropWhile isspace s \<noteq> []"
      then have "\<not> isspace (hd (dropWhile isspace s))" by (rule hd_dropWhile)
      moreover have "hd (dropWhile isspace s) \<in> set (dropWhile isspace s)" using ne by simp
      ultimately show False using a by blast
    qed
  next
    assume "dropWhile isspace s = []"
    then show "\<forall>c \<in> set (dropWhile isspace s). isspace c" by (auto dest: set_dropWhileD)
  qed
  also have "\<dots> \<longleftrightarrow> (\<forall>c \<in> set s. isspace c)" by (simp add: dropWhile_eq_Nil_conv)
  finally show ?thesis .
qed

lemma isspace_TAB: "isspace TAB" by (simp add: isspace_def TAB_def)
lemma isspace_NL: "isspace NL" by (simp add: isspace_def NL_def)
lemma isspace_CR: "isspace CR" by (simp add: isspace_def CR_def)
lemma TAB_not_NL: "TAB \<noteq> NL" by (simp add: TAB_def NL_def)
lemma TAB_not_CR: "TAB \<noteq> CR" by (simp add: TAB_def CR_def)
lemma strip_NA: "strip ''NA'' = ''NA''" by code_simp

subsection \<open>Columns and rows of the registry writer\<close>

lemma add_key_fold:
  "set (fold (\<lambda>key cols. if key \<notin> set cols then cols @ [key] else cols) ks cols) = set cols \<union> set ks
   \<and> (distinct cols \<longrightarrow> distinct (fold (\<lambda>key cols. if key \<notin> set cols then cols @ [key] else cols) ks cols))
   \<and> (\<exists>rest. fold (\<lambda>key cols. if key \<notin> set cols then cols @ [key] else cols) ks cols = cols @ rest)"
proof (induction ks arbitrary: cols)
  case Nil
  then show ?case by simp
next
  case (Cons k ks)
  show ?case
  proof (cases "k \<in> set cols")
    case True
    then show ?thesis using Cons[of cols] by auto
  next
    case False
    then show ?thesis using Cons[of "cols @ [k]"] by auto
  qed
qed

lemma add_columns_props:
  "set (add_columns s cols) = set cols \<union> fst ` set s
   \<and> (distinct cols \<longrightarrow> distinct (add_columns s cols))
   \<and> (\<exists>rest. add_columns s cols = cols @ rest)"
  using add_key_fold[of "sort (map fst s)" cols] by (simp add: add_columns_def)

lemma fold_add_columns:
  "set (fold add_columns recs cols) = set cols \<union> (\<Union>r \<in> set recs. fst ` set r)
   \<and> (distinct cols \<longrightarrow> distinct (fold add_columns recs cols))
   \<and> (\<exists>rest. fold add_columns recs cols = cols @ rest)"
proof (induction recs arbitrary: cols)
  case Nil
  then show ?case by simp
next
  case (Cons r recs)
  obtain rest where r1: "add_columns r cols = cols @ rest"
    using add_columns_props[of r cols] by blast
  obtain rest' where r2: "fold add_columns recs (add_columns r cols) = add_columns r cols @ rest'"
    using Cons[of "add_columns r cols"] by blast
  have "fold add_columns (r # recs) cols = cols @ (rest @ rest')" using r1 r2 by simp
  then have c: "\<exists>rest. fold add_columns (r # recs) cols = cols @ rest" by blast
  have a: "set (fold add_columns (r # recs) cols) = set cols \<union> (\<Union>r \<in> set (r # recs). fst ` set r)"
    using Cons[of "add_columns r cols"] add_columns_props[of r cols] by auto
  have b: "distinct cols \<longrightarrow> distinct (fold add_columns (r # recs) cols)"
    using Cons[of "add_columns r cols"] add_columns_props[of r cols] by auto
  show ?case using a b c by blast
qed

lemma create_columns_set:
  "set (create_columns recs) = {''sample_name'', ''barcode_sequence''} \<union> (\<Union>r \<in> set recs. fst ` set r)"
  using fold_add_columns[of recs "[''sample_name'', ''barcode_sequence'']"]
  by (auto simp: create_columns_def)

lemma create_columns_distinct: "distinct (create_columns recs)"
  using fold_add_columns[of recs "[''sample_name'', ''barcode_sequence'']"]
  by (simp add: create_columns_def)

lemma create_columns_prefix:
  "\<exists>rest. create_columns recs = ''sample_name'' # ''barcode_sequence'' # rest"
  using fold_add_columns[of recs "[''sample_name'', ''barcode_sequence'']"]
  by (auto simp: create_columns_def)

text \<open>Every key of a record is a column, so \<^verbatim>\<open>column_names.index(key)\<close> never raises.\<close>

lemma create_row_in_range:
  assumes "r \<in> set recs" and "(k, v) \<in> set r"
  shows "index (create_columns recs) k < length (create_columns recs)"
proof -
  have "k \<in> fst ` set r" using assms(2) by force
  then have "k \<in> set (create_columns recs)"
    using assms(1) by (auto simp: create_columns_set)
  then show ?thesis by (rule index_less)
qed

lemma map_update_index:
  "distinct cols \<Longrightarrow> (map g cols)[index cols k := v] = map (g(k := v)) cols"
proof (induction cols)
  case Nil
  then show ?case by simp
next
  case (Cons c cols)
  show ?case
  proof (cases "c = k")
    case True
    then have "k \<notin> set cols" using Cons.prems by simp
    then have "map (g(k := v)) cols = map g cols" by (auto intro: map_cong)
    then show ?thesis using True by simp
  next
    case False
    then show ?thesis using Cons by simp
  qed
qed

lemma create_row_fold:
  assumes "distinct cols" and "distinct (map fst r)"
  shows "fold (\<lambda>(key, val) row. row[index cols key := val]) r (map g cols)
       = map (\<lambda>k. case map_of r k of None \<Rightarrow> g k | Some v \<Rightarrow> v) cols"
  using assms(2)
proof (induction r arbitrary: g)
  case Nil
  then show ?case by simp
next
  case (Cons p r)
  obtain k v where p: "p = (k, v)" by (cases p)
  have kr: "map_of r k = None" using Cons.prems by (simp add: p map_of_eq_None_iff)
  have "fold (\<lambda>(key, val) row. row[index cols key := val]) (p # r) (map g cols)
      = fold (\<lambda>(key, val) row. row[index cols key := val]) r (map (g(k := v)) cols)"
    by (simp add: p map_update_index[OF assms(1)])
  also have "\<dots> = map (\<lambda>k'. case map_of r k' of None \<Rightarrow> (g(k := v)) k' | Some v' \<Rightarrow> v') cols"
    using Cons.prems by (intro Cons.IH) simp
  also have "\<dots> = map (\<lambda>k'. case map_of (p # r) k' of None \<Rightarrow> g k' | Some v' \<Rightarrow> v') cols"
    by (rule map_cong) (auto simp: p kr split: option.splits)
  finally show ?case .
qed

lemma create_row_cells:
  assumes "distinct cols" and "distinct (map fst r)"
  shows "create_row cols r = map (cell r) cols"
proof -
  have "replicate (length cols) ''NA'' = map (\<lambda>k. ''NA'') cols"
    by (simp add: map_replicate_const)
  then show ?thesis
    using create_row_fold[OF assms, of "\<lambda>k. ''NA''"]
    by (simp add: create_row_def cell_def)
qed

subsection \<open>Records built by the parser\<close>

lemma set_update_subset: "set (AList.update k v al) \<subseteq> insert (k, v) (set al)"
  by (induction al) auto

lemma set_fold_update:
  "set (fold (\<lambda>(k, v) d. AList.update k v d) ps d) \<subseteq> set ps \<union> set d"
proof (induction ps arbitrary: d)
  case Nil
  then show ?case by simp
next
  case (Cons p ps)
  obtain k v where p: "p = (k, v)" by (cases p)
  show ?case using Cons[of "AList.update k v d"] set_update_subset[of k v d]
    by (auto simp: p)
qed

lemma set_dict: "set (dict ps) \<subseteq> set ps"
  using set_fold_update[of ps "[]"] by (simp add: dict_def)

lemma map_of_fold_update:
  "distinct (map fst ps) \<Longrightarrow>
   map_of (fold (\<lambda>(k, v) d. AList.update k v d) ps d) k
     = (case map_of ps k of None \<Rightarrow> map_of d k | Some v \<Rightarrow> Some v)"
proof (induction ps arbitrary: d)
  case Nil
  then show ?case by simp
next
  case (Cons p ps)
  obtain k' v' where p: "p = (k', v')" by (cases p)
  have "map_of ps k' = None" using Cons.prems by (simp add: p map_of_eq_None_iff)
  then show ?case using Cons.prems Cons.IH[of "AList.update k' v' d"]
    by (auto simp: p update_conv' split: option.splits)
qed

lemma map_of_dict: "distinct (map fst ps) \<Longrightarrow> map_of (dict ps) = map_of ps"
  by (rule ext) (simp add: dict_def map_of_fold_update split: option.splits)

lemma distinct_fold_update:
  "distinct (map fst d) \<Longrightarrow> distinct (map fst (fold (\<lambda>(k, v) d. AList.update k v d) ps d))"
  by (induction ps arbitrary: d) (auto simp: distinct_update)

lemma distinct_dict: "distinct (map fst (dict ps))"
  using distinct_fold_update[of "[]" ps] by (simp add: dict_def)

lemma map_of_filter_cells:
  "map_of (filter (\<lambda>(k, v). P v) (zip cols (map f cols))) k
     = (if k \<in> set cols \<and> P (f k) then Some (f k) else None)"
  by (induction cols) auto

lemma map_of_filter_distinct:
  "distinct (map fst r) \<Longrightarrow>
   map_of (filter (\<lambda>(k, v). P v) r) k
     = (case map_of r k of None \<Rightarrow> None | Some v \<Rightarrow> if P v then Some v else None)"
proof (induction r)
  case Nil
  then show ?case by simp
next
  case (Cons p r)
  obtain k' v' where p: "p = (k', v')" by (cases p)
  have "map_of r k' = None" using Cons.prems by (simp add: p map_of_eq_None_iff)
  then show ?case using Cons by (auto simp: p split: option.splits)
qed

lemma parse_record_cells:
  assumes "distinct cols" and "distinct (map fst r)" and "fst ` set r \<subseteq> set cols"
  shows "map_of (parse_record cols (map (cell r) cols)) = map_of (strip_missing r)"
proof (rule ext)
  fix k
  have d: "distinct (map fst (filter (\<lambda>(k, v). v \<notin> NAs) (zip cols (map (cell r) cols))))"
    using assms(1) by (simp add: distinct_map_filter)
  have NA: "''NA'' \<in> NAs" by (simp add: NAs_def)
  have "map_of (parse_record cols (map (cell r) cols)) k
      = (if k \<in> set cols \<and> cell r k \<notin> NAs then Some (cell r k) else None)"
    by (simp add: parse_record_def map_of_dict[OF d] map_of_filter_cells)
  also have "\<dots> = map_of (strip_missing r) k"
  proof (cases "map_of r k")
    case None
    then show ?thesis
      by (simp add: strip_missing_def map_of_filter_distinct[OF assms(2)] cell_def NA)
  next
    case (Some v)
    then have "(k, v) \<in> set r" by (rule map_of_SomeD)
    then have "k \<in> fst ` set r" by force
    then have "k \<in> set cols" using assms(3) by blast
    then show ?thesis using Some
      by (simp add: strip_missing_def map_of_filter_distinct[OF assms(2)] cell_def)
  qed
  finally show "map_of (parse_record cols (map (cell r) cols)) k = map_of (strip_missing r) k" .
qed

subsection \<open>Writing and parsing again\<close>

lemma create_text:
  "create [] recs =
     join [TAB] (create_columns recs) @ [NL] @ concat (map (row_line (create_columns recs)) recs)"
proof -
  have "row_line (create_columns recs) = (\<lambda>s. join [TAB] (create_row (create_columns recs) s) @ [NL])"
    by (rule ext) (simp add: row_line_def)
  then show ?thesis by (simp add: create_def Let_def fold_append_concat)
qed

lemma join_end:
  "\<forall>x \<in> set xs. strip x = x \<Longrightarrow>
   join [TAB] xs = [] \<or> last (join [TAB] xs) \<notin> set [NL, CR]"
proof (induction "[TAB]" xs rule: join.induct)
  case 1
  then show ?case by simp
next
  case (2 x)
  then show ?case using strip_fixed_ends[of x] isspace_NL isspace_CR by auto
next
  case (3 x y ys)
  then have "join [TAB] (y # ys) = [] \<or> last (join [TAB] (y # ys)) \<notin> set [NL, CR]" by simp
  then show ?case using TAB_not_NL TAB_not_CR by auto
qed

lemma tokenize_join:
  assumes "xs \<noteq> []" and "\<forall>x \<in> set xs. TAB \<notin> set x" and "\<forall>x \<in> set xs. strip x = x"
  shows "tokenize (join [TAB] xs @ [NL]) = xs"
proof -
  have "rstrip [NL, CR] (join [TAB] xs @ [NL]) = join [TAB] xs"
    by (rule rstrip_line) (use join_end[OF assms(3)] in auto)
  moreover have "split TAB (join [TAB] xs) = xs" by (rule split_join[OF assms(1,2)])
  moreover have "map strip xs = xs" using assms(3) by (simp add: map_idI)
  ultimately show ?thesis by (simp add: tokenize_def Let_def)
qed

lemma join_no_NL:
  "\<forall>x \<in> set xs. NL \<notin> set x \<Longrightarrow> NL \<notin> set (join [TAB] xs)"
  using set_join[of "[TAB]" xs] TAB_not_NL by auto

lemma join_all_space:
  "(\<forall>c \<in> set (join [TAB] xs). isspace c) \<longleftrightarrow> (\<forall>x \<in> set xs. \<forall>c \<in> set x. isspace c)"
  by (induction "[TAB]" xs rule: join.induct) (auto simp: isspace_TAB)

lemma stripped_all_space: "strip x = x \<Longrightarrow> (\<forall>c \<in> set x. isspace c) \<longleftrightarrow> x = []"
  using strip_empty_iff[of x] by auto

lemma startswith_hash_cell:
  "startswith ''#'' (x @ TAB # rest) \<longleftrightarrow> startswith ''#'' x"
  by (cases x) (simp_all add: startswith_def TAB_def)

lemma clean_fixed: "clean_key ''sample_name''" "clean_key ''barcode_sequence''" "clean_val ''NA''"
  by code_simp+

lemma cell_clean:
  assumes "\<forall>(k, v) \<in> set r. clean_key k \<and> clean_val v"
  shows "clean_val (cell r k)"
proof (cases "map_of r k")
  case None
  then show ?thesis by (simp add: cell_def clean_fixed)
next
  case (Some v)
  then have "(k, v) \<in> set r" by (rule map_of_SomeD)
  then show ?thesis using assms Some by (auto simp: cell_def)
qed

lemma cell_empty_iff: "cell r k = [] \<longleftrightarrow> map_of r k = Some []"
  by (auto simp: cell_def split: option.splits)

lemma round_trip_core:
  assumes dk: "\<forall>r \<in> set recs. distinct (map fst r)"
    and cl: "\<forall>r \<in> set recs. \<forall>(k, v) \<in> set r. clean_key k \<and> clean_val v"
  shows "parse (lines_of (create [] recs)) =
     Inr (map (\<lambda>r. parse_record (create_columns recs) (map (cell r) (create_columns recs)))
           (filter (\<lambda>r. \<not> comment_row r \<and> \<not> blank_row (create_columns recs) r) recs))"
proof -
  define cols where "cols = create_columns recs"
  obtain rest where cols_eq: "cols = ''sample_name'' # ''barcode_sequence'' # rest"
    using create_columns_prefix[of recs] by (auto simp: cols_def)
  have dcols: "distinct cols" by (simp add: cols_def create_columns_distinct)
  have cols_clean: "\<forall>k \<in> set cols. clean_key k"
  proof
    fix k assume "k \<in> set cols"
    then consider "k = ''sample_name''" | "k = ''barcode_sequence''"
      | r where "r \<in> set recs" "k \<in> fst ` set r"
      by (auto simp: cols_def create_columns_set)
    then show "clean_key k"
    proof cases
      case 3
      then obtain v where "(k, v) \<in> set r" by auto
      then show ?thesis using cl 3(1) by auto
    qed (simp_all add: clean_fixed)
  qed
  have keys_in: "fst ` set r \<subseteq> set cols" if "r \<in> set recs" for r
    using that by (auto simp: cols_def create_columns_set)
  have row: "create_row cols r = map (cell r) cols" if "r \<in> set recs" for r
    using create_row_cells[OF dcols] dk that by simp
  have cellc: "clean_val (cell r k)" if "r \<in> set recs" for r k
    using cell_clean[of r k] cl that by blast
  \<comment> \<open>the header line\<close>
  have h_nl: "NL \<notin> set (join [TAB] cols)"
    by (rule join_no_NL) (use cols_clean in \<open>auto simp: clean_key_def\<close>)
  have h_tok: "tokenize (join [TAB] cols @ [NL]) = cols"
    by (rule tokenize_join) (use cols_clean cols_eq in \<open>auto simp: clean_key_def\<close>)
  have h_strip: "lstrip ''#'' (join [TAB] cols @ [NL]) = join [TAB] cols @ [NL]"
    by (simp add: cols_eq lstrip_def)
  have h_all: "list_all (\<lambda>k. k \<noteq> []) cols"
    using cols_clean by (simp add: list_all_iff clean_key_def)
  \<comment> \<open>the data lines\<close>
  have r_line: "row_line cols r = join [TAB] (map (cell r) cols) @ [NL]" if "r \<in> set recs" for r
    using row[OF that] by (simp add: row_line_def)
  have r_nl: "NL \<notin> set (join [TAB] (map (cell r) cols))" if "r \<in> set recs" for r
    by (rule join_no_NL) (use cellc[OF that] in \<open>auto simp: clean_val_def\<close>)
  have r_tok: "tokenize (row_line cols r) = map (cell r) cols" if "r \<in> set recs" for r
    unfolding r_line[OF that]
    by (rule tokenize_join) (use cellc[OF that] cols_eq in \<open>auto simp: clean_val_def\<close>)
  have r_comment: "startswith ''#'' (row_line cols r) \<longleftrightarrow> comment_row r" if "r \<in> set recs" for r
  proof -
    have "startswith ''#'' (row_line cols r) \<longleftrightarrow> startswith ''#'' (cell r ''sample_name'')"
      unfolding r_line[OF that] by (simp add: cols_eq startswith_hash_cell)
    also have "\<dots> \<longleftrightarrow> comment_row r"
      by (simp add: cell_def comment_row_def startswith_def split: option.splits)
    finally show ?thesis .
  qed
  have r_blank: "strip (row_line cols r) = [] \<longleftrightarrow> blank_row cols r" if "r \<in> set recs" for r
  proof -
    have "strip (row_line cols r) = [] \<longleftrightarrow> (\<forall>c \<in> set (join [TAB] (map (cell r) cols)). isspace c)"
      by (simp add: strip_empty_iff r_line[OF that] isspace_NL)
    also have "\<dots> \<longleftrightarrow> (\<forall>k \<in> set cols. \<forall>c \<in> set (cell r k). isspace c)"
      by (simp add: join_all_space)
    also have "\<dots> \<longleftrightarrow> (\<forall>k \<in> set cols. cell r k = [])"
      using cellc[OF that] stripped_all_space by (simp add: clean_val_def)
    also have "\<dots> \<longleftrightarrow> blank_row cols r"
      by (simp add: blank_row_def list_all_iff cell_empty_iff)
    finally show ?thesis .
  qed
  \<comment> \<open>the lines of the text\<close>
  define ls where "ls = map (\<lambda>r. join [TAB] (map (cell r) cols)) recs"
  have "\<forall>l \<in> set ls. NL \<notin> set l"
    using r_nl by (auto simp: ls_def)
  then have ls_lines: "lines_of (concat (map (\<lambda>l. l @ [NL]) ls)) = map (\<lambda>l. l @ [NL]) ls"
    by (rule lines_of_concat)
  have ls_rows: "map (\<lambda>l. l @ [NL]) ls = map (row_line cols) recs"
    using r_line by (simp add: ls_def)
  have body: "lines_of (concat (map (row_line cols) recs)) = map (row_line cols) recs"
    using ls_lines unfolding ls_rows .
  have lines: "lines_of (create [] recs) = (join [TAB] cols @ [NL]) # map (row_line cols) recs"
    using lines_of_line[OF h_nl, of "concat (map (row_line cols) recs)"] body
    by (simp add: create_text cols_def)
  \<comment> \<open>the parser on these lines\<close>
  have keep: "filter (\<lambda>line. \<not> startswith ''#'' line \<and> strip line \<noteq> []) (map (row_line cols) recs)
      = map (row_line cols) (filter (\<lambda>r. \<not> comment_row r \<and> \<not> blank_row cols r) recs)"
    unfolding filter_map comp_def
    by (rule arg_cong[where f = "map (row_line cols)"], rule filter_cong)
       (simp_all add: r_comment r_blank)
  have "parse (lines_of (create [] recs)) =
      Inr (map (\<lambda>line. parse_record cols (tokenize line))
            (map (row_line cols) (filter (\<lambda>r. \<not> comment_row r \<and> \<not> blank_row cols r) recs)))"
    by (simp add: lines parse_def h_strip h_tok h_all keep Let_def)
  also have "map (\<lambda>line. parse_record cols (tokenize line))
            (map (row_line cols) (filter (\<lambda>r. \<not> comment_row r \<and> \<not> blank_row cols r) recs))
      = map (\<lambda>r. parse_record cols (map (cell r) cols))
            (filter (\<lambda>r. \<not> comment_row r \<and> \<not> blank_row cols r) recs)"
    by (simp add: r_tok)
  finally show ?thesis by (simp add: cols_def)
qed

text \<open>
  Claim C2, as amended. Let the records have distinct keys, keys that are not empty and
  free of tabs, newlines and surrounding whitespace, and values free of tabs, newlines
  and surrounding whitespace. Parsing the text of the registry writer succeeds, and yields
  in order one record for every original record whose row is neither a comment (its
  sample name starts with the comment marker) nor blank (it gives the empty text to every
  column): the original record without the pairs whose value is in the missing-value set.
  When no row is a comment or blank, the parser yields as many records as were written,
  in the same order.
\<close>

theorem registry_round_trip:
  assumes "\<forall>r \<in> set recs. distinct (map fst r)"
    and "\<forall>r \<in> set recs. \<forall>(k, v) \<in> set r. clean_key k \<and> clean_val v"
  shows "\<exists>ps. parse (lines_of (create [] recs)) = Inr ps
     \<and> map map_of ps =
         map (\<lambda>r. map_of (strip_missing r))
           (filter (\<lambda>r. \<not> comment_row r \<and> \<not> blank_row (create_columns recs) r) recs)
     \<and> ((\<forall>r \<in> set recs. \<not> comment_row r \<and> \<not> blank_row (create_columns recs) r) \<longrightarrow>
          length ps = length recs
          \<and> (\<forall>i < length recs. map_of (ps ! i) = map_of (strip_missing (recs ! i))))"
proof -
  define cols where "cols = create_columns recs"
  define kept where "kept = filter (\<lambda>r. \<not> comment_row r \<and> \<not> blank_row cols r) recs"
  define ps where "ps = map (\<lambda>r. parse_record cols (map (cell r) cols)) kept"
  have p: "parse (lines_of (create [] recs)) = Inr ps"
    using round_trip_core[OF assms] by (simp add: ps_def kept_def cols_def)
  have dcols: "distinct cols" by (simp add: cols_def create_columns_distinct)
  have one: "map_of (parse_record cols (map (cell r) cols)) = map_of (strip_missing r)"
    if "r \<in> set recs" for r
  proof (rule parse_record_cells[OF dcols])
    show "distinct (map fst r)" using assms(1) that by simp
    show "fst ` set r \<subseteq> set cols" using that by (auto simp: cols_def create_columns_set)
  qed
  have m: "map map_of ps = map (\<lambda>r. map_of (strip_missing r)) kept"
    using one by (simp add: ps_def kept_def)
  have all: "length ps = length recs
          \<and> (\<forall>i < length recs. map_of (ps ! i) = map_of (strip_missing (recs ! i)))"
    if "\<forall>r \<in> set recs. \<not> comment_row r \<and> \<not> blank_row cols r"
  proof -
    have k: "kept = recs" using that by (simp add: kept_def)
    have "length ps = length recs" by (simp add: ps_def k)
    moreover have "map_of (ps ! i) = map_of (strip_missing (recs ! i))" if "i < length recs" for i
      using one[of "recs ! i"] that by (simp add: ps_def k)
    ultimately show ?thesis by blast
  qed
  show ?thesis using p m all unfolding kept_def cols_def by blast
qed

theorem registry_round_trip_witness:
  "parse (lines_of (create [] rt_recs)) = Inr rt_parsed
   \<and> map map_of rt_parsed = map (\<lambda>r. map_of (strip_missing r)) rt_recs
   \<and> length rt_parsed = length rt_recs"
proof -
  have h: "parse (lines_of (create [] rt_recs)) = Inr rt_parsed" by code_simp
  have d: "\<forall>r \<in> set rt_recs. distinct (map fst r)" by code_simp
  have c: "\<forall>r \<in> set rt_recs. \<forall>(k, v) \<in> set r. clean_key k \<and> clean_val v" by code_simp
  have f: "filter (\<lambda>r. \<not> comment_row r \<and> \<not> blank_row (create_columns rt_recs) r) rt_recs = rt_recs"
    by code_simp
  have l: "length rt_parsed = length rt_recs" by code_simp
  from registry_round_trip[OF d c] h f l show ?thesis by auto
qed

text \<open>
  Claim C2 as stated fails. Values free of tabs, newlines and surrounding whitespace
  are not enough: the record with sample name \<open>#S1\<close> is written as a comment line and
  the record with empty name and barcode as a blank line, and both are lost; and the
  claim does not restrict the keys, so the key with a leading blank comes back trimmed.
\<close>

theorem registry_round_trip_counterexample:
  "clean_val ''#S1''
   \<and> parse (lines_of (create [] [[(''sample_name'', ''#S1'')]])) = Inr []
   \<and> clean_val []
   \<and> parse (lines_of (create [] [[(''sample_name'', []), (''barcode_sequence'', [])]])) = Inr []
   \<and> clean_val ''1''
   \<and> parse (lines_of (create [] [[(''sample_name'', ''S1''), ('' a'', ''1'')]]))
       = Inr [[(''sample_name'', ''S1''), (''a'', ''1'')]]"
  by code_simp

subsection \<open>Data lines shorter than the header\<close>

lemma zip_take_keys: "zip keys vals = zip (take (length vals) keys) vals"
proof (induction keys arbitrary: vals)
  case Nil
  then show ?case by simp
next
  case (Cons k keys)
  then show ?case by (cases vals) simp_all
qed

lemma parse_record_take:
  "parse_record keys vals = parse_record (take (length vals) keys) vals"
  using zip_take_keys[of keys vals] by (simp add: parse_record_def)

lemma parse_record_positions:
  assumes "(k, v) \<in> set (parse_record keys vals)"
  shows "\<exists>i. i < length vals \<and> i < length keys \<and> k = keys ! i \<and> v = vals ! i \<and> v \<notin> NAs"
proof -
  have "(k, v) \<in> set (dict (filter (\<lambda>(k, v). v \<notin> NAs) (zip keys vals)))"
    using assms by (simp add: parse_record_def)
  then have "(k, v) \<in> set (filter (\<lambda>(k, v). v \<notin> NAs) (zip keys vals))"
    using set_dict by blast
  then have "(k, v) \<in> set (zip keys vals)" and "v \<notin> NAs" by auto
  then show ?thesis by (auto simp: in_set_zip)
qed

lemma parse_record_trailing:
  assumes "distinct keys" and "length vals \<le> i" and "i < length keys"
  shows "keys ! i \<notin> fst ` set (parse_record keys vals)"
proof
  assume "keys ! i \<in> fst ` set (parse_record keys vals)"
  then obtain v where "(keys ! i, v) \<in> set (parse_record keys vals)" by auto
  then obtain j where j: "j < length vals" "j < length keys" "keys ! i = keys ! j"
    using parse_record_positions by blast
  then have "i = j" using assms(1,3) by (simp add: nth_eq_iff_index_eq)
  then show False using j(1) assms(2) by simp
qed

text \<open>
  Claim C8. With a header that names every column, the parser raises no error whatever
  the number of values on a data line: it yields one record per data line. The record of
  a line with fewer values than header keys is the record built from the first keys only,
  as many as there are values; every pair of the record has its key and its value at the
  same position of the header and of the line; and the trailing keys, for which the line
  has no value, are not keys of the record (when the header names no column twice).
\<close>

theorem parse_short_rows:
  assumes "list_all (\<lambda>k. k \<noteq> []) (tokenize (lstrip ''#'' header))"
  shows "parse (header # rest) =
       Inr (map (\<lambda>line. parse_record (tokenize (lstrip ''#'' header)) (tokenize line))
             (filter (\<lambda>line. \<not> startswith ''#'' line \<and> strip line \<noteq> []) rest))
     \<and> parse_record keys vals = parse_record (take (length vals) keys) vals
     \<and> (\<forall>(k, v) \<in> set (parse_record keys vals).
           \<exists>i. i < length vals \<and> i < length keys \<and> k = keys ! i \<and> v = vals ! i \<and> v \<notin> NAs)
     \<and> (distinct keys \<longrightarrow>
           (\<forall>i. length vals \<le> i \<and> i < length keys \<longrightarrow>
                keys ! i \<notin> fst ` set (parse_record keys vals)))"
proof -
  have a: "parse (header # rest) =
       Inr (map (\<lambda>line. parse_record (tokenize (lstrip ''#'' header)) (tokenize line))
             (filter (\<lambda>line. \<not> startswith ''#'' line \<and> strip line \<noteq> []) rest))"
    using assms by (simp add: parse_def Let_def)
  have b: "parse_record keys vals = parse_record (take (length vals) keys) vals"
    by (rule parse_record_take)
  have c: "\<forall>(k, v) \<in> set (parse_record keys vals).
           \<exists>i. i < length vals \<and> i < length keys \<and> k = keys ! i \<and> v = vals ! i \<and> v \<notin> NAs"
    using parse_record_positions by blast
  have d: "distinct keys \<longrightarrow>
           (\<forall>i. length vals \<le> i \<and> i < length keys \<longrightarrow>
                keys ! i \<notin> fst ` set (parse_record keys vals))"
    using parse_record_trailing by blast
  show ?thesis using a b c d by blast
qed

theorem parse_short_rows_witness:
  "list_all (\<lambda>k. k \<noteq> []) (tokenize (lstrip ''#'' short_header))
   \<and> tokenize (lstrip ''#'' short_header) = [''a'', ''b'', ''c'']
   \<and> tokenize short_line = [''1'', ''2'']
   \<and> parse [short_header, short_line] = Inr [[(''a'', ''1''), (''b'', ''2'')]]
   \<and> parse_record [''a'', ''b'', ''c''] [''1'', ''2'']
       = parse_record (take (length [''1'', ''2'']) [''a'', ''b'', ''c'']) [''1'', ''2'']
   \<and> [''a'', ''b'', ''c''] ! 2 \<notin> fst ` set (parse_record [''a'', ''b'', ''c''] [''1'', ''2''])"
proof -
  have h: "list_all (\<lambda>k. k \<noteq> []) (tokenize (lstrip ''#'' short_header))" by code_simp
  have k: "tokenize (lstrip ''#'' short_header) = [''a'', ''b'', ''c'']" by code_simp
  have v: "tokenize short_line = [''1'', ''2'']" by code_simp
  have p: "parse [short_header, short_line] = Inr [[(''a'', ''1''), (''b'', ''2'')]]" by code_simp
  have d: "distinct [''a'', ''b'', ''c'']" by simp
  note t = parse_short_rows[OF h, of "[short_line]" "[''a'', ''b'', ''c'']" "[''1'', ''2'']"]
  from t have e1: "parse_record [''a'', ''b'', ''c''] [''1'', ''2'']
       = parse_record (take (length [''1'', ''2'']) [''a'', ''b'', ''c'']) [''1'', ''2'']"
    by blast
  from t d have "\<forall>i. length [''1'', ''2''] \<le> i \<and> i < length [''a'', ''b'', ''c''] \<longrightarrow>
      [''a'', ''b'', ''c''] ! i \<notin> fst ` set (parse_record [''a'', ''b'', ''c''] [''1'', ''2''])"
    by blast
  then have "length [''1'', ''2''] \<le> (2::nat) \<and> (2::nat) < length [''a'', ''b'', ''c''] \<longrightarrow>
      [''a'', ''b'', ''c''] ! 2 \<notin> fst ` set (parse_record [''a'', ''b'', ''c''] [''1'', ''2''])"
    by (rule spec)
  then have e2: "[''a'', ''b'', ''c''] ! 2 \<notin> fst ` set (parse_record [''a'', ''b'', ''c''] [''1'', ''2''])"
    by simp
  show ?thesis using h k v p e1 e2 by blast
qed

end
